theory Spec2Isabelle
  imports Complex_Main "HOL-Library.Multiset" "HOL-Library.Stream"
begin

section \<open>Conjoint-study helpers: data model\<close>

text \<open>
  The development embeds the algorithmic functions of
  \<^verbatim>\<open>plugins/edsl-research/skills/conjoint-study/helpers.py\<close>.

  A Python \<^verbatim>\<open>dict\<close> keeps its keys in insertion order and holds every key once; it is
  modelled as an association list, the order being the insertion order. Python's
  \<^verbatim>\<open>float\<close> is modelled as \<^typ>\<open>real\<close> (no rounding, no overflow), Python's \<^verbatim>\<open>int\<close>
  as \<^typ>\<open>int\<close>. Every exception the embedded code can raise is a value of \<open>error\<close>, and a
  function that can raise returns \<open>error + 'a\<close>.
\<close>

datatype error = KeyError | ValueError | ZeroDivisionError | TypeError | SystemExit int

type_synonym ('k, 'v) dict = "('k \<times> 'v) list"

type_synonym attributes = "(string, string list) dict"

type_synonym profile = "(string, string) dict"

text \<open>\<^verbatim>\<open>d[k] = v\<close>: overwrite the value of a key that is present, append a new key.\<close>

fun dict_set :: "('k, 'v) dict \<Rightarrow> 'k \<Rightarrow> 'v \<Rightarrow> ('k, 'v) dict" where
  "dict_set [] k v = [(k, v)]"
| "dict_set ((k', v') # d) k v = (if k' = k then (k, v) # d else (k', v') # dict_set d k v)"

text \<open>\<^verbatim>\<open>dict(pairs)\<close>: insert the pairs from left to right.\<close>

definition py_dict :: "('k \<times> 'v) list \<Rightarrow> ('k, 'v) dict" where
  "py_dict pairs = foldl (\<lambda>d (k, v). dict_set d k v) [] pairs"

text \<open>\<^verbatim>\<open>d.get(k)\<close>, with \<open>None\<close> for a missing key.\<close>

definition dict_get :: "('k, 'v) dict \<Rightarrow> 'k \<Rightarrow> 'v option" where
  "dict_get d k = map_of d k"

text \<open>
  \<^verbatim>\<open>d1 == d2\<close> on dicts: the same keys with the same values, whatever the insertion order.
\<close>

definition dict_eq :: "('k, 'v) dict \<Rightarrow> ('k, 'v) dict \<Rightarrow> bool" where
  "dict_eq d1 d2 \<longleftrightarrow> set d1 = set d2"

section \<open>Profile enumeration\<close>

text \<open>
  \<^verbatim>\<open>itertools.product(*iterables)\<close>, as the Python documentation defines it:
  \<^verbatim>\<open>
    result = [[]]
    for pool in pools:
        result = [x+[y] for x in result for y in pool]
  \<close>
\<close>

definition itertools_product :: "'a list list \<Rightarrow> 'a list list" where
  "itertools_product pools =
     foldl (\<lambda>result pool. concat (map (\<lambda>x. map (\<lambda>y. x @ [y]) pool) result)) [[]] pools"

text \<open>
  \<^verbatim>\<open>
  def _all_profiles(attributes):
      names = list(attributes.keys())
      level_lists = [attributes[n] for n in names]
      profiles = []
      for combo in itertools.product(*level_lists):
          profiles.append(dict(zip(names, combo)))
      return profiles
  \<close>
  \<open>attributes[n]\<close> cannot raise: \<open>n\<close> ranges over the keys of \<open>attributes\<close>.
\<close>

definition all_profiles :: "attributes \<Rightarrow> profile list" where
  "all_profiles attributes =
     (let names = map fst attributes;
          level_lists = map (\<lambda>n. the (map_of attributes n)) names
      in map (\<lambda>combo. py_dict (zip names combo)) (itertools_product level_lists))"

section \<open>Balance scoring\<close>

text \<open>
  \<^verbatim>\<open>
  def _profile_diff_count(p1, p2):
      return sum(1 for k in p1 if p1[k] != p2[k])
  \<close>
  \<open>p1[k]\<close> is the value stored with the key \<open>k\<close> of \<open>p1\<close>; \<open>p2[k]\<close> raises \<open>KeyError\<close> when
  \<open>p2\<close> has no key \<open>k\<close>.
\<close>

fun profile_diff_count :: "profile \<Rightarrow> profile \<Rightarrow> error + nat" where
  "profile_diff_count [] p2 = Inr 0"
| "profile_diff_count ((k, v) # p1) p2 =
     (case map_of p2 k of
        None \<Rightarrow> Inl KeyError
      | Some v2 \<Rightarrow>
          (case profile_diff_count p1 p2 of
             Inl e \<Rightarrow> Inl e
           | Inr n \<Rightarrow> Inr ((if v \<noteq> v2 then 1 else 0) + n)))"

text \<open>A \<^verbatim>\<open>collections.Counter\<close>: \<open>counts[x] += 1\<close> and \<open>counts.get(x, 0)\<close>.\<close>

type_synonym counter = "string \<rightharpoonup> nat"

definition counter_get :: "counter \<Rightarrow> string \<Rightarrow> nat" where
  "counter_get counts x = (case counts x of None \<Rightarrow> 0 | Some c \<Rightarrow> c)"

definition counter_incr :: "counter \<Rightarrow> string \<Rightarrow> counter" where
  "counter_incr counts x = counts(x \<mapsto> counter_get counts x + 1)"

text \<open>
  \<^verbatim>\<open>
  def _level_balance_score(choice_sets, attributes):
      score = 0.0
      for attr_name, levels in attributes.items():
          counts = collections.Counter()
          total = 0
          for cs in choice_sets:
              for profile in cs:
                  counts[profile[attr_name]] += 1
                  total += 1
          expected = total / len(levels) if levels else 1
          for level in levels:
              obs = counts.get(level, 0)
              score += (obs - expected) ** 2 / expected if expected > 0 else 0
      return score
  \<close>
  One function for each of the four loops.
\<close>

fun count_profiles :: "string \<Rightarrow> profile list \<Rightarrow> counter \<times> nat \<Rightarrow> error + (counter \<times> nat)" where
  "count_profiles attr_name [] (counts, n) = Inr (counts, n)"
| "count_profiles attr_name (profile # cs) (counts, n) =
     (case map_of profile attr_name of
        None \<Rightarrow> Inl KeyError
      | Some level \<Rightarrow> count_profiles attr_name cs (counter_incr counts level, n + 1))"

fun count_choice_sets ::
  "string \<Rightarrow> profile list list \<Rightarrow> counter \<times> nat \<Rightarrow> error + (counter \<times> nat)" where
  "count_choice_sets attr_name [] ct = Inr ct"
| "count_choice_sets attr_name (cs # choice_sets) ct =
     (case count_profiles attr_name cs ct of
        Inl e \<Rightarrow> Inl e
      | Inr ct' \<Rightarrow> count_choice_sets attr_name choice_sets ct')"

fun add_level_terms :: "counter \<Rightarrow> real \<Rightarrow> string list \<Rightarrow> real \<Rightarrow> real" where
  "add_level_terms counts expected [] score = score"
| "add_level_terms counts expected (level # levels) score =
     (let obs = counter_get counts level
      in add_level_terms counts expected levels
           (score + (if expected > 0 then (real obs - expected) ^ 2 / expected else 0)))"

fun score_attributes :: "profile list list \<Rightarrow> attributes \<Rightarrow> real \<Rightarrow> error + real" where
  "score_attributes choice_sets [] score = Inr score"
| "score_attributes choice_sets ((attr_name, levels) # attributes) score =
     (case count_choice_sets attr_name choice_sets (Map.empty, 0) of
        Inl e \<Rightarrow> Inl e
      | Inr (counts, n) \<Rightarrow>
          (let expected = (if levels \<noteq> [] then real n / real (length levels) else 1)
           in score_attributes choice_sets attributes
                (add_level_terms counts expected levels score)))"

definition level_balance_score :: "profile list list \<Rightarrow> attributes \<Rightarrow> error + real" where
  "level_balance_score choice_sets attributes = score_attributes choice_sets attributes 0"

text \<open>
  The scorer as the specification words it: the observed count of a level over all profile
  slots, the expected count, and the sum of the squared deviations.
\<close>

definition observed :: "profile list list \<Rightarrow> string \<Rightarrow> string \<Rightarrow> nat" where
  "observed choice_sets attr_name level =
     length (filter (\<lambda>profile. dict_get profile attr_name = Some level) (concat choice_sets))"

definition slot_observations :: "profile list list \<Rightarrow> nat" where
  "slot_observations choice_sets = length (concat choice_sets)"

definition expected_count :: "profile list list \<Rightarrow> string list \<Rightarrow> real" where
  "expected_count choice_sets levels =
     real (slot_observations choice_sets) / real (length levels)"

definition balance_term :: "profile list list \<Rightarrow> string \<Rightarrow> string list \<Rightarrow> string \<Rightarrow> real" where
  "balance_term choice_sets attr_name levels level =
     (if expected_count choice_sets levels = 0 then 0
      else (real (observed choice_sets attr_name level) - expected_count choice_sets levels) ^ 2
             / expected_count choice_sets levels)"

definition balance_sum :: "profile list list \<Rightarrow> attributes \<Rightarrow> real" where
  "balance_sum choice_sets attributes =
     (\<Sum>(attr_name, levels) \<leftarrow> attributes.
        \<Sum>level \<leftarrow> levels. balance_term choice_sets attr_name levels level)"

text \<open>Every profile of the choice sets has a level for every attribute.\<close>

definition complete_profiles :: "profile list list \<Rightarrow> attributes \<Rightarrow> bool" where
  "complete_profiles choice_sets attributes \<longleftrightarrow>
     (\<forall>cs \<in> set choice_sets. \<forall>profile \<in> set cs. \<forall>attr_name \<in> fst ` set attributes.
        dict_get profile attr_name \<noteq> None)"

section \<open>The random number generator\<close>

text \<open>
  The functions of Python's \<^verbatim>\<open>random\<close> module that the search calls. The generator's state
  is the stream of raw draws still to come; \<^verbatim>\<open>random.seed\<close> is a parameter of the model, a
  function from the seed to such a stream. Quantifying over all streams covers every behaviour
  of the generator.

  \<^verbatim>\<open>_randbelow(n)\<close> returns a number below \<open>n\<close>.
  \<^verbatim>\<open>randint(a, b)\<close> is \<^verbatim>\<open>a + _randbelow(b - a + 1)\<close>, and raises \<open>ValueError\<close> on an
  empty range.
  \<^verbatim>\<open>
  def shuffle(self, x):
      for i in reversed(range(1, len(x))):
          j = randbelow(i + 1)
          x[i], x[j] = x[j], x[i]
  \<close>
\<close>

type_synonym rng = "nat stream"

definition randbelow :: "nat \<Rightarrow> rng \<Rightarrow> nat \<times> rng" where
  "randbelow n g = (shd g mod n, stl g)"

definition randint :: "int \<Rightarrow> int \<Rightarrow> rng \<Rightarrow> error + (int \<times> rng)" where
  "randint a b g =
     (if b - a + 1 \<le> 0 then Inl ValueError
      else (case randbelow (nat (b - a + 1)) g of (r, g') \<Rightarrow> Inr (a + int r, g')))"

fun shuffle_from :: "nat \<Rightarrow> 'a list \<Rightarrow> rng \<Rightarrow> 'a list \<times> rng" where
  "shuffle_from 0 x g = (x, g)"
| "shuffle_from (Suc i) x g =
     (case randbelow (Suc i + 1) g of
        (j, g') \<Rightarrow> shuffle_from i (x[Suc i := x ! j, j := x ! Suc i]) g')"

definition shuffle :: "'a list \<Rightarrow> rng \<Rightarrow> 'a list \<times> rng" where
  "shuffle x g = shuffle_from (length x - 1) x g"

section \<open>Design search\<close>

text \<open>
  \<^verbatim>\<open>all(_profile_diff_count(cand, t) >= min_diff for t in task)\<close>, which stops at the first
  profile of the task that is too close.
\<close>

fun all_min_diff :: "profile \<Rightarrow> profile list \<Rightarrow> int \<Rightarrow> error + bool" where
  "all_min_diff cand [] min_diff = Inr True"
| "all_min_diff cand (t # task) min_diff =
     (case profile_diff_count cand t of
        Inl e \<Rightarrow> Inl e
      | Inr d \<Rightarrow> if int d \<ge> min_diff then all_min_diff cand task min_diff else Inr False)"

text \<open>
  \<^verbatim>\<open>
  for cand in candidates:
      if len(task) >= profiles_per_task:
          break
      if all(_profile_diff_count(cand, t) >= min_diff for t in task):
          task.append(cand)
  \<close>
\<close>

fun add_candidates :: "profile list \<Rightarrow> profile list \<Rightarrow> int \<Rightarrow> int \<Rightarrow> error + profile list" where
  "add_candidates [] task profiles_per_task min_diff = Inr task"
| "add_candidates (cand # candidates) task profiles_per_task min_diff =
     (if int (length task) \<ge> profiles_per_task then Inr task
      else (case all_min_diff cand task min_diff of
              Inl e \<Rightarrow> Inl e
            | Inr ok \<Rightarrow>
                add_candidates candidates (if ok then task @ [cand] else task)
                  profiles_per_task min_diff))"

text \<open>
  \<^verbatim>\<open>
  for cand in remaining:
      if len(task) >= profiles_per_task:
          break
      task.append(cand)
  \<close>
\<close>

fun fill_remaining :: "profile list \<Rightarrow> profile list \<Rightarrow> int \<Rightarrow> profile list" where
  "fill_remaining [] task profiles_per_task = task"
| "fill_remaining (cand # remaining) task profiles_per_task =
     (if int (length task) \<ge> profiles_per_task then task
      else fill_remaining remaining (task @ [cand]) profiles_per_task)"

text \<open>
  The body of the task loop after the first profile is drawn:
  \<^verbatim>\<open>
  task = [first]
  candidates = [p for p in profiles if p != first]
  random.shuffle(candidates)
  for cand in candidates: ...
  if len(task) < profiles_per_task:
      remaining = [p for p in profiles if p not in task]
      random.shuffle(remaining)
      for cand in remaining: ...
  \<close>
\<close>

definition build_task ::
  "profile list \<Rightarrow> int \<Rightarrow> int \<Rightarrow> profile \<Rightarrow> rng \<Rightarrow> error + (profile list \<times> rng)" where
  "build_task profiles profiles_per_task min_diff first g =
     (case shuffle [p \<leftarrow> profiles. \<not> dict_eq p first] g of
        (candidates, g1) \<Rightarrow>
          (case add_candidates candidates [first] profiles_per_task min_diff of
             Inl e \<Rightarrow> Inl e
           | Inr task \<Rightarrow>
               if int (length task) < profiles_per_task
               then (case shuffle [p \<leftarrow> profiles. \<not> list_ex (dict_eq p) task] g1 of
                       (remaining, g2) \<Rightarrow>
                         Inr (fill_remaining remaining task profiles_per_task, g2))
               else Inr (task, g1)))"

text \<open>
  \<^verbatim>\<open>
  for _ in range(n_tasks):
      if not available:
          available = list(profiles)
          random.shuffle(available)
      first = available.pop(random.randint(0, len(available) - 1))
      ...
      choice_sets.append(task)
  \<close>
  The index drawn lies within \<open>available\<close>, so \<open>pop\<close> cannot raise.
\<close>

fun tasks_loop ::
  "nat \<Rightarrow> profile list \<Rightarrow> int \<Rightarrow> int \<Rightarrow> profile list \<Rightarrow> profile list list \<Rightarrow> rng \<Rightarrow>
   error + (profile list list \<times> rng)" where
  "tasks_loop 0 profiles profiles_per_task min_diff available choice_sets g =
     Inr (choice_sets, g)"
| "tasks_loop (Suc k) profiles profiles_per_task min_diff available choice_sets g =
     (case (if available = [] then shuffle profiles g else (available, g)) of
        (available1, g1) \<Rightarrow>
          (case randint 0 (int (length available1) - 1) g1 of
             Inl e \<Rightarrow> Inl e
           | Inr (i, g2) \<Rightarrow>
               (let first = available1 ! nat i;
                    available2 = take (nat i) available1 @ drop (Suc (nat i)) available1
                in case build_task profiles profiles_per_task min_diff first g2 of
                     Inl e \<Rightarrow> Inl e
                   | Inr (task, g3) \<Rightarrow>
                       tasks_loop k profiles profiles_per_task min_diff available2
                         (choice_sets @ [task]) g3)))"

text \<open>
  \<^verbatim>\<open>
  best_sets = None
  best_score = float("inf")
  for _ in range(iterations):
      choice_sets = []
      available = list(profiles)
      random.shuffle(available)
      for _ in range(n_tasks): ...
      score = _level_balance_score(choice_sets, attributes)
      if score < best_score:
          best_score = score
          best_sets = choice_sets
  return best_sets, best_score
  \<close>
  The pair \<open>(best_sets, best_score)\<close> is \<open>None\<close> while it is \<open>(None, inf)\<close>; every score is
  below \<open>inf\<close>.
\<close>

fun search_loop ::
  "nat \<Rightarrow> profile list \<Rightarrow> attributes \<Rightarrow> int \<Rightarrow> int \<Rightarrow> int \<Rightarrow>
   (profile list list \<times> real) option \<Rightarrow> rng \<Rightarrow>
   error + ((profile list list \<times> real) option \<times> rng)" where
  "search_loop 0 profiles attributes n_tasks profiles_per_task min_diff best g = Inr (best, g)"
| "search_loop (Suc k) profiles attributes n_tasks profiles_per_task min_diff best g =
     (case shuffle profiles g of
        (available, g1) \<Rightarrow>
          (case tasks_loop (nat n_tasks) profiles profiles_per_task min_diff available [] g1 of
             Inl e \<Rightarrow> Inl e
           | Inr (choice_sets, g2) \<Rightarrow>
               (case level_balance_score choice_sets attributes of
                  Inl e \<Rightarrow> Inl e
                | Inr score \<Rightarrow>
                    search_loop k profiles attributes n_tasks profiles_per_task min_diff
                      (case best of
                         None \<Rightarrow> Some (choice_sets, score)
                       | Some (best_sets, best_score) \<Rightarrow>
                           if score < best_score then Some (choice_sets, score)
                           else Some (best_sets, best_score))
                      g2)))"

definition generate_one_version ::
  "profile list \<Rightarrow> attributes \<Rightarrow> int \<Rightarrow> int \<Rightarrow> int \<Rightarrow> int \<Rightarrow> rng \<Rightarrow>
   error + ((profile list list \<times> real) option \<times> rng)" where
  "generate_one_version profiles attributes n_tasks profiles_per_task min_diff iterations g =
     search_loop (nat iterations) profiles attributes n_tasks profiles_per_task min_diff None g"

section \<open>Design generation\<close>

text \<open>
  The design specification read from the JSON file; a key that may be missing is an option,
  and \<^verbatim>\<open>spec.get(key, default)\<close> supplies the default.
\<close>

record design_spec =
  spec_attributes :: attributes
  spec_tasks_per_version :: "int option"
  spec_profiles_per_task :: "int option"
  spec_n_versions :: "int option"
  spec_min_attribute_diff :: "int option"
  spec_seed :: "int option"
  spec_include_none :: "bool option"

definition spec_get :: "'a option \<Rightarrow> 'a \<Rightarrow> 'a" where
  "spec_get field dflt = (case field of None \<Rightarrow> dflt | Some x \<Rightarrow> x)"

record design_version =
  v_version :: int
  v_balance_score :: real
  v_choice_sets :: "profile list list"

record design_output =
  out_attributes :: attributes
  out_n_tasks :: int
  out_profiles_per_task :: int
  out_n_versions :: int
  out_include_none :: bool
  out_total_profiles :: nat
  out_versions :: "design_version list"

text \<open>\<^verbatim>\<open>round(x, ndigits)\<close>: to the nearest multiple of \<open>10 ^ -ndigits\<close>, a tie to the even one.\<close>

definition py_round :: "real \<Rightarrow> nat \<Rightarrow> real" where
  "py_round x ndigits =
     (let y = x * 10 ^ ndigits;
          f = \<lfloor>y\<rfloor>;
          d = y - of_int f
      in of_int (if d < 1 / 2 then f else if d > 1 / 2 then f + 1
                 else if even f then f else f + 1) / 10 ^ ndigits)"

text \<open>\<^verbatim>\<open>for cs in choice_sets: random.shuffle(cs)\<close>\<close>

fun shuffle_each :: "profile list list \<Rightarrow> rng \<Rightarrow> profile list list \<times> rng" where
  "shuffle_each [] g = ([], g)"
| "shuffle_each (cs # choice_sets) g =
     (case shuffle cs g of
        (cs', g1) \<Rightarrow>
          (case shuffle_each choice_sets g1 of (rest, g2) \<Rightarrow> (cs' # rest, g2)))"

text \<open>
  \<^verbatim>\<open>
  for v in range(n_versions):
      random.seed(seed + v)
      choice_sets, score = _generate_one_version(
          profiles, attributes, n_tasks, profiles_per_task, min_diff=min_diff)
      for cs in choice_sets:
          random.shuffle(cs)
      all_versions.append({"version": v + 1, "balance_score": round(score, 4),
                           "choice_sets": choice_sets})
  \<close>
  \<open>iterations\<close> keeps its default, 1000. Iterating over \<open>choice_sets = None\<close> raises
  \<open>TypeError\<close>. The generator's state enters each round and is replaced by the seeded one.
\<close>

fun versions_loop ::
  "(int \<Rightarrow> rng) \<Rightarrow> profile list \<Rightarrow> attributes \<Rightarrow> int \<Rightarrow> int \<Rightarrow> int \<Rightarrow> int \<Rightarrow>
   nat list \<Rightarrow> design_version list \<Rightarrow> rng \<Rightarrow> error + (design_version list \<times> rng)" where
  "versions_loop random_seed profiles attributes n_tasks profiles_per_task min_diff seed
     [] all_versions g = Inr (all_versions, g)"
| "versions_loop random_seed profiles attributes n_tasks profiles_per_task min_diff seed
     (v # vs) all_versions g =
     (let g0 = random_seed (seed + int v)
      in case generate_one_version profiles attributes n_tasks profiles_per_task min_diff 1000 g0 of
           Inl e \<Rightarrow> Inl e
         | Inr (None, g1) \<Rightarrow> Inl TypeError
         | Inr (Some (choice_sets, score), g1) \<Rightarrow>
             (case shuffle_each choice_sets g1 of
                (choice_sets', g2) \<Rightarrow>
                  versions_loop random_seed profiles attributes n_tasks profiles_per_task
                    min_diff seed vs
                    (all_versions @
                       [\<lparr>v_version = int v + 1, v_balance_score = py_round score 4,
                         v_choice_sets = choice_sets'\<rparr>])
                    g2))"

text \<open>
  \<^verbatim>\<open>
  def generate_design(args):
      ...
      random.seed(seed)
      profiles = _all_profiles(attributes)
      if len(profiles) < profiles_per_task:
          print(..., file=sys.stderr)
          sys.exit(1)
      n_attrs = len(attributes)
      if min_diff > n_attrs:
          min_diff = max(1, n_attrs - 1)
      all_versions = []
      for v in range(n_versions): ...
      output = {...}
  \<close>
  The result is the record written to the output file, with the generator's final state;
  \<open>g\<close> is the state of the generator when the function is entered.
\<close>

definition generate_design ::
  "(int \<Rightarrow> rng) \<Rightarrow> design_spec \<Rightarrow> rng \<Rightarrow> error + (design_output \<times> rng)" where
  "generate_design random_seed spec g =
     (let attributes = spec_attributes spec;
          n_tasks = spec_get (spec_tasks_per_version spec) 8;
          profiles_per_task = spec_get (spec_profiles_per_task spec) 3;
          n_versions = spec_get (spec_n_versions spec) 4;
          min_diff = spec_get (spec_min_attribute_diff spec) 2;
          seed = spec_get (spec_seed spec) 42;
          include_none = spec_get (spec_include_none spec) False;
          g1 = random_seed seed;
          profiles = all_profiles attributes
      in if int (length profiles) < profiles_per_task then Inl (SystemExit 1)
         else
           (let n_attrs = int (length attributes);
                min_diff' = (if min_diff > n_attrs then max 1 (n_attrs - 1) else min_diff)
            in case versions_loop random_seed profiles attributes n_tasks profiles_per_task
                      min_diff' seed [0..<nat n_versions] [] g1 of
                 Inl e \<Rightarrow> Inl e
               | Inr (all_versions, g2) \<Rightarrow>
                   Inr (\<lparr>out_attributes = attributes, out_n_tasks = n_tasks,
                         out_profiles_per_task = profiles_per_task,
                         out_n_versions = n_versions, out_include_none = include_none,
                         out_total_profiles = length profiles,
                         out_versions = all_versions\<rparr>, g2)))"

text \<open>
  What one round of the version loop computes from the stream seeded with \<open>seed + v\<close>:
  the search, then the shuffle of every task.
\<close>

definition version_from_stream ::
  "profile list \<Rightarrow> attributes \<Rightarrow> int \<Rightarrow> int \<Rightarrow> int \<Rightarrow> rng \<Rightarrow> error + profile list list" where
  "version_from_stream profiles attributes n_tasks profiles_per_task min_diff g0 =
     (case generate_one_version profiles attributes n_tasks profiles_per_task min_diff 1000 g0 of
        Inl e \<Rightarrow> Inl e
      | Inr (None, g1) \<Rightarrow> Inl TypeError
      | Inr (Some (choice_sets, score), g1) \<Rightarrow> Inr (fst (shuffle_each choice_sets g1)))"

section \<open>Utility estimation\<close>

text \<open>A choice record; \<open>rec_chosen_profile\<close> is \<open>None\<close> when the none option was chosen.\<close>

record choice_record =
  rec_task :: int
  rec_chosen_profile :: "profile option"
  rec_agent_traits :: "(string, string) dict"

type_synonym utilities = "(string, (string, real) dict) dict"

text \<open>
  \<^verbatim>\<open>
  level_chosen = {attr: collections.Counter() for attr in attributes}
  for rec in records:
      if rec["chosen_profile"] is None:
          continue
      for attr_name in attributes:
          level = rec["chosen_profile"].get(attr_name)
          if level is not None:
              level_chosen[attr_name][level] += 1
  \<close>
  \<open>level_chosen\<close> has a counter for every attribute name and is indexed by attribute names
  only, so it is a function from the name to the counter.
\<close>

fun count_record_levels ::
  "string list \<Rightarrow> profile \<Rightarrow> (string \<Rightarrow> counter) \<Rightarrow> (string \<Rightarrow> counter)" where
  "count_record_levels [] chosen level_chosen = level_chosen"
| "count_record_levels (attr_name # names) chosen level_chosen =
     (case dict_get chosen attr_name of
        None \<Rightarrow> count_record_levels names chosen level_chosen
      | Some level \<Rightarrow>
          count_record_levels names chosen
            (level_chosen(attr_name := counter_incr (level_chosen attr_name) level)))"

fun count_chosen ::
  "choice_record list \<Rightarrow> string list \<Rightarrow> (string \<Rightarrow> counter) \<Rightarrow> (string \<Rightarrow> counter)" where
  "count_chosen [] names level_chosen = level_chosen"
| "count_chosen (r # records) names level_chosen =
     (case rec_chosen_profile r of
        None \<Rightarrow> count_chosen records names level_chosen
      | Some chosen \<Rightarrow> count_chosen records names (count_record_levels names chosen level_chosen))"

text \<open>
  \<^verbatim>\<open>
  for level in levels:
      chosen_count = level_chosen[attr_name].get(level, 0)
      if total_choices > 0 and chosen_count > 0:
          choice_share = chosen_count / total_choices
          attr_utils[level] = math.log(choice_share / expected_share)
      else:
          attr_utils[level] = -2.0  # penalty for never-chosen levels
  \<close>
\<close>

fun level_utils ::
  "counter \<Rightarrow> nat \<Rightarrow> real \<Rightarrow> string list \<Rightarrow> (string, real) dict \<Rightarrow> (string, real) dict" where
  "level_utils counts total_choices expected_share [] attr_utils = attr_utils"
| "level_utils counts total_choices expected_share (level # levels) attr_utils =
     (let chosen_count = counter_get counts level
      in level_utils counts total_choices expected_share levels
           (dict_set attr_utils level
              (if total_choices > 0 \<and> chosen_count > 0
               then ln ((real chosen_count / real total_choices) / expected_share)
               else - 2)))"

text \<open>
  \<^verbatim>\<open>
  for attr_name, levels in attributes.items():
      n_levels = len(levels)
      expected_share = 1.0 / n_levels
      attr_utils = {}
      for level in levels: ...
      mean_util = sum(attr_utils.values()) / len(attr_utils) if attr_utils else 0
      for level in attr_utils:
          attr_utils[level] -= mean_util
      utilities[attr_name] = attr_utils
  \<close>
  \<open>1.0 / n_levels\<close> raises \<open>ZeroDivisionError\<close> for an attribute without levels.
\<close>

fun utilities_loop ::
  "(string \<Rightarrow> counter) \<Rightarrow> nat \<Rightarrow> attributes \<Rightarrow> utilities \<Rightarrow> error + utilities" where
  "utilities_loop level_chosen total_choices [] utilities = Inr utilities"
| "utilities_loop level_chosen total_choices ((attr_name, levels) # attributes) utilities =
     (let n_levels = length levels
      in if n_levels = 0 then Inl ZeroDivisionError
         else
           (let expected_share = 1 / real n_levels;
                attr_utils = level_utils (level_chosen attr_name) total_choices expected_share
                               levels [];
                mean_util = (if attr_utils \<noteq> []
                             then sum_list (map snd attr_utils) / real (length attr_utils)
                             else 0);
                attr_utils' = map (\<lambda>(level, u). (level, u - mean_util)) attr_utils
            in utilities_loop level_chosen total_choices attributes
                 (dict_set utilities attr_name attr_utils')))"

text \<open>
  \<^verbatim>\<open>
  def _compute_utilities(records, attributes):
      ...
      total_choices = sum(1 for r in records if r["chosen_profile"] is not None)
      utilities = {}
      for attr_name, levels in attributes.items(): ...
      return utilities
  \<close>
\<close>

definition compute_utilities :: "choice_record list \<Rightarrow> attributes \<Rightarrow> error + utilities" where
  "compute_utilities records attributes =
     (let level_chosen = count_chosen records (map fst attributes) (\<lambda>attr. Map.empty);
          total_choices = length (filter (\<lambda>r. rec_chosen_profile r \<noteq> None) records)
      in utilities_loop level_chosen total_choices attributes [])"

text \<open>The estimator as the specification words it.\<close>

definition chosen_count :: "choice_record list \<Rightarrow> string \<Rightarrow> string \<Rightarrow> nat" where
  "chosen_count records attr_name level =
     length (filter (\<lambda>r. case rec_chosen_profile r of
                            None \<Rightarrow> False
                          | Some chosen \<Rightarrow> dict_get chosen attr_name = Some level) records)"

definition total_choices :: "choice_record list \<Rightarrow> nat" where
  "total_choices records = length (filter (\<lambda>r. rec_chosen_profile r \<noteq> None) records)"

definition raw_utility :: "choice_record list \<Rightarrow> string \<Rightarrow> string list \<Rightarrow> string \<Rightarrow> real" where
  "raw_utility records attr_name levels level =
     (if chosen_count records attr_name level > 0
      then ln ((real (chosen_count records attr_name level) / real (total_choices records))
               / (1 / real (length levels)))
      else - 2)"

definition mean_utility :: "choice_record list \<Rightarrow> string \<Rightarrow> string list \<Rightarrow> real" where
  "mean_utility records attr_name levels =
     (\<Sum>level \<in> set levels. raw_utility records attr_name levels level)
       / real (card (set levels))"

section \<open>Attribute importance\<close>

text \<open>
  \<^verbatim>\<open>
  def _compute_importance(utilities):
      ranges = {}
      for attr_name, attr_utils in utilities.items():
          vals = list(attr_utils.values())
          if vals:
              ranges[attr_name] = max(vals) - min(vals)
          else:
              ranges[attr_name] = 0.0
      total_range = sum(ranges.values())
      importance = {}
      for attr_name, r in ranges.items():
          importance[attr_name] = (r / total_range * 100) if total_range > 0 else 0
      return importance
  \<close>
\<close>

fun ranges_loop :: "utilities \<Rightarrow> (string, real) dict \<Rightarrow> (string, real) dict" where
  "ranges_loop [] ranges = ranges"
| "ranges_loop ((attr_name, attr_utils) # utilities) ranges =
     (let vals = map snd attr_utils
      in ranges_loop utilities
           (dict_set ranges attr_name
              (if vals \<noteq> [] then Max (set vals) - Min (set vals) else 0)))"

fun importance_loop ::
  "real \<Rightarrow> (string, real) dict \<Rightarrow> (string, real) dict \<Rightarrow> (string, real) dict" where
  "importance_loop total_range [] importance = importance"
| "importance_loop total_range ((attr_name, r) # ranges) importance =
     importance_loop total_range ranges
       (dict_set importance attr_name (if total_range > 0 then r / total_range * 100 else 0))"

definition compute_importance :: "utilities \<Rightarrow> (string, real) dict" where
  "compute_importance utilities =
     (let ranges = ranges_loop utilities [];
          total_range = sum_list (map snd ranges)
      in importance_loop total_range ranges [])"

text \<open>The range of an attribute as the specification words it.\<close>

definition utility_range :: "(string, real) dict \<Rightarrow> real" where
  "utility_range attr_utils =
     (if attr_utils = [] then 0 else Max (snd ` set attr_utils) - Min (snd ` set attr_utils))"

definition total_utility_range :: "utilities \<Rightarrow> real" where
  "total_utility_range utilities = (\<Sum>(attr_name, attr_utils) \<leftarrow> utilities. utility_range attr_utils)"

section \<open>Market simulation\<close>

text \<open>
  \<^verbatim>\<open>
  total = 0.0
  for attr_name, level in profile.items():
      if attr_name in utilities and level in utilities[attr_name]:
          total += utilities[attr_name][level]
  \<close>
\<close>

fun total_utility :: "utilities \<Rightarrow> profile \<Rightarrow> real \<Rightarrow> real" where
  "total_utility utilities [] total_u = total_u"
| "total_utility utilities ((attr_name, level) # profile) total_u =
     (case map_of utilities attr_name of
        None \<Rightarrow> total_utility utilities profile total_u
      | Some attr_utils \<Rightarrow>
          (case map_of attr_utils level of
             None \<Rightarrow> total_utility utilities profile total_u
           | Some u \<Rightarrow> total_utility utilities profile (total_u + u)))"

section \<open>Notions the claims about the design use\<close>

text \<open>The profiles of a task are pairwise distinct: no two positions hold equal dicts.\<close>

definition pairwise_distinct :: "profile list \<Rightarrow> bool" where
  "pairwise_distinct task \<longleftrightarrow>
     (\<forall>i < length task. \<forall>j < length task. i \<noteq> j \<longrightarrow> \<not> dict_eq (task ! i) (task ! j))"

text \<open>The \<open>min_diff\<close> that \<open>generate_design\<close> passes to the search, after its adjustment.\<close>

definition effective_min_diff :: "design_spec \<Rightarrow> int" where
  "effective_min_diff spec =
     (let min_diff = spec_get (spec_min_attribute_diff spec) 2;
          n_attrs = int (length (spec_attributes spec))
      in if min_diff > n_attrs then max 1 (n_attrs - 1) else min_diff)"

text \<open>
  The choice sets of the version with index \<open>v\<close>, computed from nothing but the
  specification and the stream seeded with \<open>seed + v\<close>.
\<close>

definition spec_version :: "(int \<Rightarrow> rng) \<Rightarrow> design_spec \<Rightarrow> nat \<Rightarrow> error + profile list list" where
  "spec_version random_seed spec v =
     version_from_stream (all_profiles (spec_attributes spec)) (spec_attributes spec)
       (spec_get (spec_tasks_per_version spec) 8) (spec_get (spec_profiles_per_task spec) 3)
       (effective_min_diff spec) (random_seed (spec_get (spec_seed spec) 42 + int v))"

section \<open>Inputs used in the claims about the design\<close>

text \<open>
  Three design specifications, as JSON:
  \<^verbatim>\<open>{"attributes": {"x": ["a", "a"], "y": ["c", "d"]}}\<close>, an attribute with a repeated level;
  \<^verbatim>\<open>{"attributes": {"a": []}, "profiles_per_task": 0}\<close>, an attribute without levels;
  \<^verbatim>\<open>{"attributes": {"price": ["low", "high"]}, "profiles_per_task": 2}\<close>.
  Every key that is left out takes its default.
\<close>

definition spec_repeated_level :: design_spec where
  "spec_repeated_level =
     \<lparr>spec_attributes = [(''x'', [''a'', ''a'']), (''y'', [''c'', ''d''])],
      spec_tasks_per_version = None, spec_profiles_per_task = None, spec_n_versions = None,
      spec_min_attribute_diff = None, spec_seed = None, spec_include_none = None\<rparr>"


definition spec_two_profiles :: design_spec where
  "spec_two_profiles =
     \<lparr>spec_attributes = [(''price'', [''low'', ''high''])],
      spec_tasks_per_version = None, spec_profiles_per_task = Some 2, spec_n_versions = None,
      spec_min_attribute_diff = None, spec_seed = None, spec_include_none = None\<rparr>"

text \<open>A generator whose every raw draw is 0, whatever the seed.\<close>

definition zero_seed :: "int \<Rightarrow> rng" where
  "zero_seed seed = sconst 0"

section \<open>Facts about dicts and the enumeration\<close>

lemma dict_set_fresh: "k \<notin> fst ` set d \<Longrightarrow> dict_set d k v = d @ [(k, v)]"
  by (induction d) auto

lemma py_dict_foldl:
  "distinct (map fst (d @ pairs)) \<Longrightarrow>
   foldl (\<lambda>d (k, v). dict_set d k v) d pairs = d @ pairs"
proof (induction pairs arbitrary: d)
  case Nil
  then show ?case by simp
next
  case (Cons kv pairs)
  obtain k v where kv: "kv = (k, v)" by (cases kv)
  from Cons.prems have fresh: "k \<notin> fst ` set d" by (auto simp: kv)
  from Cons.prems have "distinct (map fst ((d @ [(k, v)]) @ pairs))" by (simp add: kv)
  from Cons.IH [OF this] show ?case by (simp add: kv dict_set_fresh [OF fresh])
qed

lemma py_dict_distinct: "distinct (map fst pairs) \<Longrightarrow> py_dict pairs = pairs"
  using py_dict_foldl [of "[]" pairs] by (simp add: py_dict_def)

lemma append_Nil_map: "map ((@) []) xs = xs"
  by (induction xs) auto

lemma product_inner:
  "concat (map (\<lambda>x. map ((@) (a @ [x])) P) pool) =
   map ((@) a) (concat (map (\<lambda>x. map (Cons x) P) pool))"
  by (induction pool) auto

lemma product_foldl:
  "foldl (\<lambda>result pool. concat (map (\<lambda>x. map (\<lambda>y. x @ [y]) pool) result)) acc pools =
   concat (map (\<lambda>a. map ((@) a) (product_lists pools)) acc)"
proof (induction pools arbitrary: acc)
  case Nil
  then show ?case by (induction acc) auto
next
  case (Cons pool pools)
  have "concat (map (\<lambda>a. map ((@) a) (product_lists pools))
          (concat (map (\<lambda>x. map (\<lambda>y. x @ [y]) pool) acc))) =
        concat (map (\<lambda>a. map ((@) a) (product_lists (pool # pools))) acc)"
  proof (induction acc)
    case Nil
    then show ?case by simp
  next
    case (Cons a acc)
    then show ?case
      using product_inner [of a "product_lists pools" pool]
      by (simp add: map_concat comp_def)
  qed
  then show ?case by (simp add: Cons.IH)
qed

lemma itertools_product_eq: "itertools_product pools = product_lists pools"
  by (simp add: itertools_product_def product_foldl append_Nil_map)

lemma level_lists_eq:
  "distinct (map fst attributes) \<Longrightarrow>
   map (\<lambda>n. the (map_of attributes n)) (map fst attributes) = map snd attributes"
  by (induction attributes) (auto simp: image_iff)

lemma all_profiles_eq:
  assumes "distinct (map fst attributes)"
  shows "all_profiles attributes =
         map (zip (map fst attributes)) (product_lists (map snd attributes))"
proof -
  have "py_dict (zip (map fst attributes) combo) = zip (map fst attributes) combo" for combo :: "string list"
    by (rule py_dict_distinct) (use assms in \<open>simp add: map_fst_zip_take\<close>)
  then show ?thesis
    unfolding all_profiles_def Let_def itertools_product_eq level_lists_eq [OF assms]
    by simp
qed

lemma length_product_lists_prod:
  "length (product_lists xss) = prod_list (map length xss)"
  by (induction xss) (simp_all add: length_concat comp_def sum_list_triv)

lemma all_profiles_Nil: "all_profiles [] = [[]]"
  by (simp add: all_profiles_def itertools_product_def py_dict_def)

lemma all_profiles_Cons:
  assumes "distinct (map fst ((n, levels) # rest))"
  shows "all_profiles ((n, levels) # rest) =
         concat (map (\<lambda>l. map (\<lambda>p. (n, l) # p) (all_profiles rest)) levels)"
proof -
  from assms have rest: "distinct (map fst rest)" by simp
  show ?thesis
    unfolding all_profiles_eq [OF assms] all_profiles_eq [OF rest]
    by (simp add: map_concat comp_def)
qed

lemma all_profiles_shape:
  assumes "distinct (map fst attributes)"
  shows "p \<in> set (all_profiles attributes) \<longleftrightarrow>
         list_all2 (\<lambda>(k, l) (n, levels). k = n \<and> l \<in> set levels) p attributes"
  using assms
proof (induction attributes arbitrary: p)
  case Nil
  then show ?case by (simp add: all_profiles_Nil)
next
  case (Cons a attributes)
  obtain n levels where a: "a = (n, levels)" by (cases a)
  from Cons.prems have rest: "distinct (map fst attributes)" by simp
  show ?case
    using Cons.prems Cons.IH [OF rest]
    unfolding a all_profiles_Cons [OF Cons.prems [unfolded a]]
    by (cases p) auto
qed

section \<open>Claims about the profile enumerator\<close>

text \<open>
  C4. For every attribute specification (a dict, so the names are distinct), the enumerator
  returns the full Cartesian product of the levels: the number of profiles is the product of
  the level counts; a profile is in the output exactly when it pairs every attribute, in the
  order of the specification, with one of its levels, so that looking an attribute up in an
  output profile gives one of its levels; and the order is that of nested loops, the first
  attribute outermost, every attribute's levels in the order given.
\<close>

theorem all_profiles_cartesian_product:
  assumes "distinct (map fst attributes)"
  shows "length (all_profiles attributes) = prod_list (map (\<lambda>(n, levels). length levels) attributes)
       \<and> set (all_profiles attributes) =
           {p. list_all2 (\<lambda>(k, l) (n, levels). k = n \<and> l \<in> set levels) p attributes}
       \<and> (\<forall>p \<in> set (all_profiles attributes). \<forall>(n, levels) \<in> set attributes.
             \<exists>l \<in> set levels. dict_get p n = Some l)
       \<and> (attributes = [] \<longrightarrow> all_profiles attributes = [[]])
       \<and> (\<forall>n levels rest. attributes = (n, levels) # rest \<longrightarrow>
             all_profiles attributes =
               concat (map (\<lambda>l. map (\<lambda>p. (n, l) # p) (all_profiles rest)) levels))"
proof -
  have len: "length (all_profiles attributes) =
             prod_list (map (\<lambda>(n, levels). length levels) attributes)"
    by (simp add: all_profiles_eq [OF assms] length_product_lists_prod comp_def case_prod_unfold)
  have shape: "set (all_profiles attributes) =
               {p. list_all2 (\<lambda>(k, l) (n, levels). k = n \<and> l \<in> set levels) p attributes}"
    using all_profiles_shape [OF assms] by blast
  have lookup: "\<exists>l \<in> set levels. dict_get p n = Some l"
    if p: "p \<in> set (all_profiles attributes)" and a: "(n, levels) \<in> set attributes"
    for p n levels
  proof -
    from p have l2: "list_all2 (\<lambda>(k, l) (n, levels). k = n \<and> l \<in> set levels) p attributes"
      by (simp add: all_profiles_shape [OF assms])
    from a obtain i where i: "i < length attributes" "attributes ! i = (n, levels)"
      by (auto simp: in_set_conv_nth)
    from l2 have lenp: "length p = length attributes" by (rule list_all2_lengthD)
    from l2 i have pi: "fst (p ! i) = n" "snd (p ! i) \<in> set levels"
      by (auto dest!: list_all2_nthD2 [where p = i] simp: case_prod_unfold)
    have keys: "map fst p = map fst attributes"
      using l2 by (induction rule: list_all2_induct) auto
    with assms have dp: "distinct (map fst p)" by simp
    have "p ! i \<in> set p" using i lenp by simp
    then have "(n, snd (p ! i)) \<in> set p" using pi(1) by (metis prod.collapse)
    with dp have "map_of p n = Some (snd (p ! i))" by simp
    with pi(2) show ?thesis by (auto simp: dict_get_def)
  qed
  have cons: "all_profiles attributes =
              concat (map (\<lambda>l. map (\<lambda>p. (n, l) # p) (all_profiles rest)) levels)"
    if "attributes = (n, levels) # rest" for n levels rest
    using all_profiles_Cons [of n levels rest] assms that by simp
  from len shape lookup cons show ?thesis
    by (auto simp: all_profiles_Nil)
qed

theorem all_profiles_cartesian_product_witness:
  "distinct (map fst [(''price'', [''low'', ''high'']), (''brand'', [''X'', ''Y''])])
   \<and> all_profiles [(''price'', [''low'', ''high'']), (''brand'', [''X'', ''Y''])] =
       [[(''price'', ''low''), (''brand'', ''X'')], [(''price'', ''low''), (''brand'', ''Y'')],
        [(''price'', ''high''), (''brand'', ''X'')], [(''price'', ''high''), (''brand'', ''Y'')]]
   \<and> length (all_profiles [(''price'', [''low'', ''high'']), (''brand'', [''X'', ''Y''])]) = 4"
proof -
  have d: "distinct (map fst [(''price'', [''low'', ''high'']), (''brand'', [''X'', ''Y''])])"
    by simp
  have d': "distinct (map fst [(''brand'', [''X'', ''Y''])])"
    by simp
  note t = all_profiles_cartesian_product [OF d] all_profiles_cartesian_product [OF d']
  from t have "all_profiles [(''price'', [''low'', ''high'']), (''brand'', [''X'', ''Y''])] =
       [[(''price'', ''low''), (''brand'', ''X'')], [(''price'', ''low''), (''brand'', ''Y'')],
        [(''price'', ''high''), (''brand'', ''X'')], [(''price'', ''high''), (''brand'', ''Y'')]]"
    by (simp add: all_profiles_Nil)
  moreover from t have "length (all_profiles [(''price'', [''low'', ''high'']), (''brand'', [''X'', ''Y''])]) = 4"
    by (simp add: all_profiles_Nil)
  ultimately show ?thesis using d by blast
qed

section \<open>Claims about the balance scorer\<close>

lemma counter_get_incr:
  "counter_get (counter_incr counts x) y = counter_get counts y + (if y = x then 1 else 0)"
  by (simp add: counter_get_def counter_incr_def)

lemma count_profiles_counts:
  assumes "\<forall>profile \<in> set cs. map_of profile attr_name \<noteq> None"
  shows "\<exists>counts'. count_profiles attr_name cs (counts, n) = Inr (counts', n + length cs)
           \<and> (\<forall>level. counter_get counts' level =
                 counter_get counts level
                   + length (filter (\<lambda>profile. map_of profile attr_name = Some level) cs))"
  using assms
proof (induction cs arbitrary: counts n)
  case Nil
  then show ?case by simp
next
  case (Cons profile cs)
  from Cons.prems obtain level where level: "map_of profile attr_name = Some level"
    by auto
  from Cons.prems have rest: "\<forall>profile \<in> set cs. map_of profile attr_name \<noteq> None"
    by simp
  from Cons.IH [OF rest, of "counter_incr counts level" "n + 1"]
  obtain counts' where
    c: "count_profiles attr_name cs (counter_incr counts level, n + 1) =
          Inr (counts', n + 1 + length cs)"
    and g: "\<forall>l. counter_get counts' l =
              counter_get (counter_incr counts level) l
                + length (filter (\<lambda>profile. map_of profile attr_name = Some l) cs)"
    by blast
  show ?case
    using c g level by (auto simp: counter_get_incr)
qed

lemma count_choice_sets_counts:
  assumes "\<forall>cs \<in> set choice_sets. \<forall>profile \<in> set cs. map_of profile attr_name \<noteq> None"
  shows "\<exists>counts'. count_choice_sets attr_name choice_sets (counts, n) =
             Inr (counts', n + length (concat choice_sets))
           \<and> (\<forall>level. counter_get counts' level =
                 counter_get counts level
                   + length (filter (\<lambda>profile. map_of profile attr_name = Some level)
                               (concat choice_sets)))"
  using assms
proof (induction choice_sets arbitrary: counts n)
  case Nil
  then show ?case by simp
next
  case (Cons cs choice_sets)
  from Cons.prems have here: "\<forall>profile \<in> set cs. map_of profile attr_name \<noteq> None"
    and rest: "\<forall>cs \<in> set choice_sets. \<forall>profile \<in> set cs. map_of profile attr_name \<noteq> None"
    by simp_all
  from count_profiles_counts [OF here, of counts n]
  obtain c1 where
    c1: "count_profiles attr_name cs (counts, n) = Inr (c1, n + length cs)"
    and g1: "\<forall>level. counter_get c1 level =
               counter_get counts level
                 + length (filter (\<lambda>profile. map_of profile attr_name = Some level) cs)"
    by blast
  from Cons.IH [OF rest, of c1 "n + length cs"]
  obtain c2 where
    c2: "count_choice_sets attr_name choice_sets (c1, n + length cs) =
           Inr (c2, n + length cs + length (concat choice_sets))"
    and g2: "\<forall>level. counter_get c2 level =
               counter_get c1 level
                 + length (filter (\<lambda>profile. map_of profile attr_name = Some level)
                             (concat choice_sets))"
    by blast
  show ?case
    using c1 c2 g1 g2 by (simp add: add.assoc)
qed

lemma add_level_terms_sum:
  "add_level_terms counts expected levels score =
   score + (\<Sum>level \<leftarrow> levels.
              if expected > 0 then (real (counter_get counts level) - expected) ^ 2 / expected
              else 0)"
  by (induction levels arbitrary: score) (simp_all add: Let_def)

lemma expected_count_nonneg: "0 \<le> expected_count choice_sets levels"
  by (simp add: expected_count_def)

lemma sum_list_all_zero:
  "(\<And>x. x \<in> set xs \<Longrightarrow> f x = (0::real)) \<Longrightarrow> sum_list (map f xs) = 0"
  by (induction xs) auto

lemma balance_term_nonneg: "0 \<le> balance_term choice_sets attr_name levels level"
  using expected_count_nonneg [of choice_sets levels] by (simp add: balance_term_def)

lemma score_attributes_sum:
  assumes "complete_profiles choice_sets attributes"
  shows "score_attributes choice_sets attributes score =
         Inr (score + balance_sum choice_sets attributes)"
  using assms
proof (induction attributes arbitrary: score)
  case Nil
  then show ?case by (simp add: balance_sum_def)
next
  case (Cons a attributes)
  obtain attr_name levels where a: "a = (attr_name, levels)" by (cases a)
  from Cons.prems have rest: "complete_profiles choice_sets attributes"
    by (simp add: complete_profiles_def)
  from Cons.prems
  have here: "\<forall>cs \<in> set choice_sets. \<forall>profile \<in> set cs. map_of profile attr_name \<noteq> None"
    by (simp add: complete_profiles_def a dict_get_def)
  from count_choice_sets_counts [OF here, of Map.empty 0]
  obtain counts where
    c: "count_choice_sets attr_name choice_sets (Map.empty, 0) =
          Inr (counts, length (concat choice_sets))"
    and g: "\<forall>level. counter_get counts level = observed choice_sets attr_name level"
    by (auto simp: counter_get_def observed_def dict_get_def)
  define expected where
    "expected = (if levels \<noteq> [] then real (length (concat choice_sets)) / real (length levels)
                 else 1)"
  have point: "(if expected > 0 then (real (counter_get counts level) - expected) ^ 2 / expected
                else 0) = balance_term choice_sets attr_name levels level"
    if "level \<in> set levels" for level
  proof -
    from that have ne: "levels \<noteq> []" by auto
    then have e: "expected = expected_count choice_sets levels"
      by (simp add: expected_def expected_count_def slot_observations_def)
    have "0 \<le> expected" unfolding e by (rule expected_count_nonneg)
    then have "(expected > 0) = (expected \<noteq> 0)" by linarith
    then show ?thesis
      using g unfolding balance_term_def e [symmetric] by simp
  qed
  have terms: "(\<Sum>level \<leftarrow> levels.
                  if expected > 0 then (real (counter_get counts level) - expected) ^ 2 / expected
                  else 0) =
               (\<Sum>level \<leftarrow> levels. balance_term choice_sets attr_name levels level)"
    by (rule arg_cong [where f = sum_list], rule map_cong [OF refl]) (rule point)
  show ?case
    using c Cons.IH [OF rest] terms
    unfolding a expected_def
    by (simp add: Let_def add_level_terms_sum balance_sum_def add.assoc)
qed

lemma balance_sum_nonneg: "0 \<le> balance_sum choice_sets attributes"
  unfolding balance_sum_def
  by (intro sum_list_nonneg) (auto intro!: sum_list_nonneg balance_term_nonneg)

lemma balance_sum_zero:
  assumes "\<forall>(attr_name, levels) \<in> set attributes. \<forall>level \<in> set levels.
             real (observed choice_sets attr_name level) = expected_count choice_sets levels"
  shows "balance_sum choice_sets attributes = 0"
proof -
  have "balance_term choice_sets attr_name levels level = 0"
    if "(attr_name, levels) \<in> set attributes" "level \<in> set levels" for attr_name levels level
    using assms that by (auto simp: balance_term_def)
  then have "(\<Sum>level \<leftarrow> levels. balance_term choice_sets attr_name levels level) = 0"
    if "(attr_name, levels) \<in> set attributes" for attr_name levels
    using that by (intro sum_list_all_zero) blast
  then show ?thesis
    unfolding balance_sum_def by (intro sum_list_all_zero) auto
qed

text \<open>
  C3. For all choice sets whose profiles have a level for every attribute, the scorer returns
  the sum over attributes and levels of \<open>(observed - expected)\<^sup>2 / expected\<close>, a level with
  expected count zero adding nothing; the score is never negative; and it is zero when every
  level of every attribute is observed exactly the expected number of times.
\<close>

theorem level_balance_score_chi_squared:
  assumes "complete_profiles choice_sets attributes"
  shows "level_balance_score choice_sets attributes = Inr (balance_sum choice_sets attributes)
       \<and> 0 \<le> balance_sum choice_sets attributes
       \<and> ((\<forall>(attr_name, levels) \<in> set attributes. \<forall>level \<in> set levels.
               real (observed choice_sets attr_name level) = expected_count choice_sets levels)
            \<longrightarrow> level_balance_score choice_sets attributes = Inr 0)"
  using score_attributes_sum [OF assms, of 0] balance_sum_nonneg [of choice_sets attributes]
    balance_sum_zero [of attributes choice_sets]
  by (simp add: level_balance_score_def)

theorem level_balance_score_chi_squared_witness:
  "complete_profiles
     [[[(''price'', ''low''), (''brand'', ''X'')], [(''price'', ''high''), (''brand'', ''Y'')]],
      [[(''price'', ''low''), (''brand'', ''Y'')], [(''price'', ''high''), (''brand'', ''X'')]]]
     [(''price'', [''low'', ''high'']), (''brand'', [''X'', ''Y''])]
   \<and> level_balance_score
     [[[(''price'', ''low''), (''brand'', ''X'')], [(''price'', ''high''), (''brand'', ''Y'')]],
      [[(''price'', ''low''), (''brand'', ''Y'')], [(''price'', ''high''), (''brand'', ''X'')]]]
     [(''price'', [''low'', ''high'']), (''brand'', [''X'', ''Y''])] = Inr 0"
proof -
  let ?cs = "[[[(''price'', ''low''), (''brand'', ''X'')], [(''price'', ''high''), (''brand'', ''Y'')]],
      [[(''price'', ''low''), (''brand'', ''Y'')], [(''price'', ''high''), (''brand'', ''X'')]]]"
  let ?a = "[(''price'', [''low'', ''high'']), (''brand'', [''X'', ''Y''])]"
  have c: "complete_profiles ?cs ?a"
    by (simp add: complete_profiles_def dict_get_def)
  have u: "\<forall>(attr_name, levels) \<in> set ?a. \<forall>level \<in> set levels.
             real (observed ?cs attr_name level) = expected_count ?cs levels"
    by (simp add: observed_def expected_count_def slot_observations_def dict_get_def)
  from level_balance_score_chi_squared [OF c] u have "level_balance_score ?cs ?a = Inr 0"
    by blast
  with c show ?thesis by blast
qed

section \<open>Claims about the importance calculator\<close>

lemma ranges_loop_eq:
  "distinct (map fst ranges @ map fst utilities) \<Longrightarrow>
   ranges_loop utilities ranges =
   ranges @ map (\<lambda>(attr_name, attr_utils). (attr_name, utility_range attr_utils)) utilities"
proof (induction utilities arbitrary: ranges)
  case Nil
  then show ?case by simp
next
  case (Cons a utilities)
  obtain attr_name attr_utils where a: "a = (attr_name, attr_utils)" by (cases a)
  from Cons.prems have fresh: "attr_name \<notin> fst ` set ranges" by (auto simp: a)
  have r: "(if map snd attr_utils \<noteq> []
            then Max (set (map snd attr_utils)) - Min (set (map snd attr_utils)) else 0) =
           utility_range attr_utils"
    by (simp add: utility_range_def)
  from Cons.prems
  have "distinct (map fst (ranges @ [(attr_name, utility_range attr_utils)]) @ map fst utilities)"
    by (auto simp: a)
  from Cons.IH [OF this] show ?case
    unfolding a ranges_loop.simps Let_def r dict_set_fresh [OF fresh] by simp
qed

lemma importance_loop_eq:
  "distinct (map fst importance @ map fst ranges) \<Longrightarrow>
   importance_loop total_range ranges importance =
   importance @ map (\<lambda>(attr_name, r).
                   (attr_name, if total_range > 0 then r / total_range * 100 else 0)) ranges"
proof (induction ranges arbitrary: importance)
  case Nil
  then show ?case by simp
next
  case (Cons a ranges)
  obtain attr_name r where a: "a = (attr_name, r)" by (cases a)
  from Cons.prems have fresh: "attr_name \<notin> fst ` set importance" by (auto simp: a)
  from Cons.prems
  have "distinct (map fst (importance @
            [(attr_name, if total_range > 0 then r / total_range * 100 else 0)]) @ map fst ranges)"
    by (auto simp: a)
  from Cons.IH [OF this] show ?case
    unfolding a importance_loop.simps dict_set_fresh [OF fresh] by simp
qed

lemma utility_range_nonneg: "0 \<le> utility_range attr_utils"
proof (cases "attr_utils = []")
  case True
  then show ?thesis by (simp add: utility_range_def)
next
  case False
  then have "Min (snd ` set attr_utils) \<le> Max (snd ` set attr_utils)"
    by (intro Min_le_iff [THEN iffD2]) (auto intro!: bexI [of _ "Max (snd ` set attr_utils)"])
  with False show ?thesis by (simp add: utility_range_def)
qed

lemma total_utility_range_nonneg: "0 \<le> total_utility_range utilities"
  unfolding total_utility_range_def
  by (intro sum_list_nonneg) (auto simp: utility_range_nonneg)

lemma total_utility_range_pos:
  assumes "(attr_name, attr_utils) \<in> set utilities" "utility_range attr_utils \<noteq> 0"
  shows "0 < total_utility_range utilities"
proof -
  have "utility_range attr_utils \<le> total_utility_range utilities"
    unfolding total_utility_range_def
    using assms(1)
    by (intro member_le_sum_list) (auto simp: utility_range_nonneg intro!: image_eqI [of _ _ "(attr_name, attr_utils)"])
  with assms(2) utility_range_nonneg [of attr_utils] show ?thesis by linarith
qed

lemma compute_importance_eq:
  assumes "distinct (map fst utilities)"
  shows "compute_importance utilities =
         map (\<lambda>(attr_name, attr_utils).
                (attr_name,
                 if total_utility_range utilities > 0
                 then utility_range attr_utils / total_utility_range utilities * 100 else 0))
             utilities"
proof -
  have r: "ranges_loop utilities [] =
           map (\<lambda>(attr_name, attr_utils). (attr_name, utility_range attr_utils)) utilities"
    using ranges_loop_eq [of "[]" utilities] assms by simp
  have k: "map fst (map (\<lambda>(attr_name, attr_utils). (attr_name, utility_range attr_utils)) utilities) =
           map fst utilities"
    by (simp add: comp_def case_prod_unfold)
  have t: "sum_list (map snd (map (\<lambda>(attr_name, attr_utils). (attr_name, utility_range attr_utils))
                                utilities)) = total_utility_range utilities"
    by (simp add: total_utility_range_def comp_def case_prod_unfold)
  show ?thesis
    unfolding compute_importance_def Let_def r t
    using importance_loop_eq [of "[]" _ "total_utility_range utilities"] assms k
    by (simp add: comp_def case_prod_unfold)
qed

lemma sum_list_scaled:
  "(\<Sum>x \<leftarrow> xs. f x / (t::real) * 100) = (\<Sum>x \<leftarrow> xs. f x) / t * 100"
  by (induction xs) (simp_all add: add_divide_distrib distrib_right)

text \<open>
  C5. For every utility table (a dict, so the attribute names are distinct), the calculator gives
  every attribute the percentage \<open>range / total * 100\<close>, where the range of an attribute is the
  maximum minus the minimum of its level utilities and 0 for an attribute without levels, and
  the total is the sum of the ranges; every importance is 0 when the total is 0; and the
  percentages sum to 100 when some attribute has a range other than 0.
\<close>

theorem compute_importance_percentages:
  assumes "distinct (map fst utilities)"
  shows "map fst (compute_importance utilities) = map fst utilities
       \<and> (\<forall>(attr_name, attr_utils) \<in> set utilities.
             dict_get (compute_importance utilities) attr_name =
               Some (if total_utility_range utilities = 0 then 0
                     else utility_range attr_utils / total_utility_range utilities * 100))
       \<and> ((\<exists>(attr_name, attr_utils) \<in> set utilities. utility_range attr_utils \<noteq> 0)
            \<longrightarrow> sum_list (map snd (compute_importance utilities)) = 100)
       \<and> (total_utility_range utilities = 0
            \<longrightarrow> (\<forall>(attr_name, pct) \<in> set (compute_importance utilities). pct = 0))"
proof -
  let ?T = "total_utility_range utilities"
  let ?f = "\<lambda>(attr_name, attr_utils).
              (attr_name, if ?T > 0 then utility_range attr_utils / ?T * 100 else (0::real))"
  note eq = compute_importance_eq [OF assms]
  have pos: "(?T > 0) = (?T \<noteq> 0)"
    using total_utility_range_nonneg [of utilities] by linarith
  have keys: "map fst (compute_importance utilities) = map fst utilities"
    unfolding eq by (simp add: comp_def case_prod_unfold)
  have look: "dict_get (compute_importance utilities) attr_name =
                Some (if ?T = 0 then 0 else utility_range attr_utils / ?T * 100)"
    if "(attr_name, attr_utils) \<in> set utilities" for attr_name attr_utils
  proof -
    from that have "(attr_name, snd (?f (attr_name, attr_utils))) \<in> set (map ?f utilities)"
      by (force simp: image_iff)
    moreover have "distinct (map fst (map ?f utilities))"
      using assms by (simp add: comp_def case_prod_unfold)
    ultimately have "map_of (map ?f utilities) attr_name = Some (snd (?f (attr_name, attr_utils)))"
      by (rule map_of_is_SomeI [rotated])
    then show ?thesis
      unfolding eq dict_get_def using pos by simp
  qed
  have total: "sum_list (map snd (compute_importance utilities)) = 100"
    if "\<exists>(attr_name, attr_utils) \<in> set utilities. utility_range attr_utils \<noteq> 0"
  proof -
    from that total_utility_range_pos have T: "0 < ?T" by blast
    have "sum_list (map snd (compute_importance utilities)) =
          (\<Sum>x \<leftarrow> utilities. utility_range (snd x) / ?T * 100)"
      unfolding eq using T by (simp add: comp_def case_prod_unfold)
    also have "\<dots> = (\<Sum>x \<leftarrow> utilities. utility_range (snd x)) / ?T * 100"
      by (rule sum_list_scaled)
    also have "(\<Sum>x \<leftarrow> utilities. utility_range (snd x)) = ?T"
      by (simp add: total_utility_range_def case_prod_unfold)
    finally show ?thesis using T by simp
  qed
  have zero: "\<forall>(attr_name, pct) \<in> set (compute_importance utilities). pct = 0" if "?T = 0"
    unfolding eq using that by auto
  from keys look total zero show ?thesis by blast
qed

theorem compute_importance_percentages_witness:
  "distinct (map fst [(''price'', [(''low'', 1::real), (''high'', - 1)]),
                      (''brand'', [(''X'', 1 / 2), (''Y'', - 1 / 2)])])
   \<and> (\<exists>(attr_name, attr_utils) \<in> set [(''price'', [(''low'', 1), (''high'', - 1)]),
                      (''brand'', [(''X'', 1 / 2), (''Y'', - 1 / 2)])].
         utility_range attr_utils \<noteq> 0)
   \<and> sum_list (map snd (compute_importance [(''price'', [(''low'', 1), (''high'', - 1)]),
                      (''brand'', [(''X'', 1 / 2), (''Y'', - 1 / 2)])])) = 100"
proof -
  let ?u = "[(''price'', [(''low'', 1::real), (''high'', - 1)]),
             (''brand'', [(''X'', 1 / 2), (''Y'', - 1 / 2)])]"
  have d: "distinct (map fst ?u)" by simp
  have r: "\<exists>(attr_name, attr_utils) \<in> set ?u. utility_range attr_utils \<noteq> 0"
    by (simp add: utility_range_def)
  from compute_importance_percentages [OF d] r
  have "sum_list (map snd (compute_importance ?u)) = 100" by blast
  with d r show ?thesis by blast
qed

section \<open>Claims about the market simulator\<close>

lemma total_utility_append:
  "total_utility utilities (p1 @ p2) t = total_utility utilities p2 (total_utility utilities p1 t)"
  by (induction p1 arbitrary: t) (auto split: option.splits)

text \<open>
  C10. An attribute of the profile that the utility table has, with a level that the table does
  not have for this attribute, adds nothing to the total utility of the profile: the total is
  that of the profile without the attribute.
\<close>

theorem total_utility_absent_level:
  assumes "map_of utilities attr_name = Some attr_utils"
    and "map_of attr_utils level = None"
  shows "total_utility utilities (p1 @ (attr_name, level) # p2) t =
         total_utility utilities (p1 @ p2) t"
  using assms by (simp add: total_utility_append)

theorem total_utility_absent_level_witness:
  "map_of [(''price'', [(''low'', 1::real), (''high'', - 1)])] ''price'' =
     Some [(''low'', 1), (''high'', - 1)]
   \<and> map_of [(''low'', 1::real), (''high'', - 1)] ''mid'' = None
   \<and> total_utility [(''price'', [(''low'', 1), (''high'', - 1)])]
         ([(''brand'', ''X'')] @ (''price'', ''mid'') # [(''size'', ''L'')]) 0 =
       total_utility [(''price'', [(''low'', 1), (''high'', - 1)])]
         ([(''brand'', ''X'')] @ [(''size'', ''L'')]) 0
   \<and> total_utility [(''price'', [(''low'', 1), (''high'', - 1)])]
         ([(''brand'', ''X'')] @ (''price'', ''mid'') # [(''size'', ''L'')]) 0 = 0"
proof -
  have a: "map_of [(''price'', [(''low'', 1::real), (''high'', - 1)])] ''price'' =
             Some [(''low'', 1), (''high'', - 1)]"
    by simp
  have b: "map_of [(''low'', 1::real), (''high'', - 1)] ''mid'' = None"
    by simp
  note t = total_utility_absent_level [OF a b, of "[(''brand'', ''X'')]" "[(''size'', ''L'')]" 0]
  moreover from t have "total_utility [(''price'', [(''low'', 1), (''high'', - 1)])]
         ([(''brand'', ''X'')] @ (''price'', ''mid'') # [(''size'', ''L'')]) 0 = 0"
    by simp
  ultimately show ?thesis using a b by blast
qed

section \<open>Claims about the utility estimator\<close>

lemma dict_set_keys: "fst ` set (dict_set d k v) = insert k (fst ` set d)"
proof (induction d)
  case Nil
  then show ?case by simp
next
  case (Cons a d)
  obtain k' v' where a: "a = (k', v')" by (cases a)
  show ?case
  proof (cases "k' = k")
    case True
    then show ?thesis by (simp add: a)
  next
    case False
    then show ?thesis using Cons.IH by (simp add: a insert_commute)
  qed
qed

lemma dict_set_distinct: "distinct (map fst d) \<Longrightarrow> distinct (map fst (dict_set d k v))"
proof (induction d)
  case Nil
  then show ?case by simp
next
  case (Cons a d)
  then show ?case
    using dict_set_keys [of d k v] by (cases a) auto
qed

lemma dict_set_entries: "set (dict_set d k v) \<subseteq> insert (k, v) (set d)"
  by (induction d) (auto split: if_splits)

lemma count_record_levels_counts:
  assumes "distinct names"
  shows "counter_get (count_record_levels names chosen level_chosen attr_name) level =
         counter_get (level_chosen attr_name) level
           + (if attr_name \<in> set names \<and> dict_get chosen attr_name = Some level then 1 else 0)"
  using assms
proof (induction names arbitrary: level_chosen)
  case Nil
  then show ?case by simp
next
  case (Cons n names)
  from Cons.prems have d: "distinct names" and n: "n \<notin> set names" by simp_all
  show ?case
  proof (cases "dict_get chosen n")
    case None
    with Cons.IH [OF d] n show ?thesis by auto
  next
    case (Some l)
    have step: "count_record_levels (n # names) chosen level_chosen =
                count_record_levels names chosen
                  (level_chosen(n := counter_incr (level_chosen n) l))"
      using Some by simp
    show ?thesis
      unfolding step Cons.IH [OF d] using n Some by (auto simp: counter_get_incr)
  qed
qed

lemma count_chosen_counts:
  assumes "distinct names"
  shows "counter_get (count_chosen records names level_chosen attr_name) level =
         counter_get (level_chosen attr_name) level
           + (if attr_name \<in> set names then chosen_count records attr_name level else 0)"
proof (induction records arbitrary: level_chosen)
  case Nil
  then show ?case by (simp add: chosen_count_def)
next
  case (Cons r records)
  show ?case
  proof (cases "rec_chosen_profile r")
    case None
    with Cons.IH show ?thesis by (simp add: chosen_count_def)
  next
    case (Some chosen)
    with Cons.IH [of "count_record_levels names chosen level_chosen"]
      count_record_levels_counts [OF assms, of chosen level_chosen attr_name level]
    show ?thesis by (simp add: chosen_count_def)
  qed
qed

lemma chosen_count_le_total: "chosen_count records attr_name level \<le> total_choices records"
proof -
  have "length (filter (\<lambda>r. case rec_chosen_profile r of None \<Rightarrow> False
                           | Some chosen \<Rightarrow> dict_get chosen attr_name = Some level) records)
        \<le> length (filter (\<lambda>r. rec_chosen_profile r \<noteq> None) records)"
    by (induction records) (auto split: option.splits)
  then show ?thesis by (simp add: chosen_count_def total_choices_def)
qed

lemma level_utils_invariant:
  assumes "distinct (map fst attr_utils)"
    and "\<forall>(l, u) \<in> set attr_utils. u = v l"
    and "\<forall>l. v l = (if tc > 0 \<and> counter_get counts l > 0
                   then ln ((real (counter_get counts l) / real tc) / expected_share)
                   else - 2)"
  shows "distinct (map fst (level_utils counts tc expected_share levels attr_utils))
       \<and> fst ` set (level_utils counts tc expected_share levels attr_utils) =
           fst ` set attr_utils \<union> set levels
       \<and> (\<forall>(l, u) \<in> set (level_utils counts tc expected_share levels attr_utils).
             u = v l)"
  using assms(1,2)
proof (induction levels arbitrary: attr_utils)
  case Nil
  then show ?case by simp
next
  case (Cons level levels)
  let ?d = "dict_set attr_utils level (v level)"
  have d: "distinct (map fst ?d)" using Cons.prems(1) by (rule dict_set_distinct)
  have e: "\<forall>(l, u) \<in> set ?d. u = v l"
    using Cons.prems(2) dict_set_entries [of attr_utils level "v level"] by auto
  have step: "level_utils counts tc expected_share (level # levels) attr_utils =
              level_utils counts tc expected_share levels ?d"
    using assms(3) by (simp add: Let_def)
  from Cons.IH [OF d e] show ?case
    unfolding step by (simp add: dict_set_keys)
qed

lemma dict_values_sum:
  assumes "distinct (map fst d)" and "\<forall>(l, u) \<in> set d. u = v l"
  shows "sum_list (map snd d) = (\<Sum>l \<in> fst ` set d. (v l :: real))"
proof -
  have "map snd d = map v (map fst d)"
    using assms(2) by (induction d) auto
  then have "sum_list (map snd d) = sum_list (map v (map fst d))" by (rule arg_cong)
  also have "\<dots> = sum v (set (map fst d))"
    using assms(1) by (rule sum_list_distinct_conv_sum_set)
  finally show ?thesis by simp
qed

text \<open>The centred utilities of one attribute, as the loop body computes them.\<close>

lemma raw_utility_code:
  assumes "\<forall>l. counter_get counts l = chosen_count records attr_name l"
  shows "raw_utility records attr_name levels l =
         (if total_choices records > 0 \<and> counter_get counts l > 0
          then ln ((real (counter_get counts l) / real (total_choices records))
                   / (1 / real (length levels)))
          else - 2)"
proof -
  have c: "counter_get counts l = chosen_count records attr_name l"
    using assms by blast
  have "0 < total_choices records" if "0 < chosen_count records attr_name l"
    using that chosen_count_le_total [of records attr_name l] by linarith
  then show ?thesis
    unfolding raw_utility_def c by auto
qed

lemma attr_utils_centred:
  fixes records :: "choice_record list"
  assumes ne: "levels \<noteq> []"
    and counts: "\<forall>l. counter_get counts l = chosen_count records attr_name l"
  defines "lu \<equiv> level_utils counts (total_choices records) (1 / real (length levels)) levels []"
  defines "mean \<equiv> (if lu \<noteq> [] then sum_list (map snd lu) / real (length lu) else 0)"
  defines "centred \<equiv> map (\<lambda>(level, u). (level, u - mean)) lu"
  shows "distinct (map fst centred)"
    and "fst ` set centred = set levels"
    and "\<forall>l \<in> set levels. dict_get centred l =
           Some (raw_utility records attr_name levels l - mean_utility records attr_name levels)"
proof -
  let ?v = "raw_utility records attr_name levels"
  have v: "\<forall>l. ?v l = (if total_choices records > 0 \<and> counter_get counts l > 0
                  then ln ((real (counter_get counts l) / real (total_choices records))
                           / (1 / real (length levels)))
                  else - 2)"
    using raw_utility_code [OF counts] by blast
  have inv: "distinct (map fst lu) \<and> fst ` set lu = fst ` set ([] :: (string \<times> real) list) \<union> set levels
             \<and> (\<forall>(l, u) \<in> set lu. u = ?v l)"
    unfolding lu_def
  proof (rule level_utils_invariant [where v = ?v])
    show "distinct (map fst ([] :: (string \<times> real) list))" by simp
    show "\<forall>(l, u) \<in> set ([] :: (string \<times> real) list). u = ?v l" by simp
    show "\<forall>l. ?v l = (if total_choices records > 0 \<and> counter_get counts l > 0
                  then ln ((real (counter_get counts l) / real (total_choices records))
                           / (1 / real (length levels)))
                  else - 2)"
      by (rule v)
  qed
  from inv have d: "distinct (map fst lu)" by blast
  from inv have k: "fst ` set lu = set levels" by simp
  from inv have e: "\<forall>(l, u) \<in> set lu. u = ?v l" by blast
  from k ne have lu_ne: "lu \<noteq> []" by auto
  have "length lu = length (map fst lu)" by simp
  also have "\<dots> = card (set (map fst lu))" using d by (rule distinct_card [symmetric])
  also have "set (map fst lu) = set levels" using k by simp
  finally have len: "length lu = card (set levels)" .
  have "sum_list (map snd lu) = sum ?v (fst ` set lu)"
    using d e by (rule dict_values_sum)
  then have s: "sum_list (map snd lu) = sum ?v (set levels)" unfolding k .
  have mean: "mean = mean_utility records attr_name levels"
    unfolding mean_def mean_utility_def s len using lu_ne by simp
  have keys: "map fst centred = map fst lu"
    unfolding centred_def by (induction lu) auto
  show dc: "distinct (map fst centred)" unfolding keys by (rule d)
  show "fst ` set centred = set levels"
    using k keys by (metis set_map)
  show "\<forall>l \<in> set levels. dict_get centred l =
          Some (?v l - mean_utility records attr_name levels)"
  proof
    fix l assume "l \<in> set levels"
    with k obtain u where u: "(l, u) \<in> set lu" by force
    with e have "u = ?v l" by blast
    with u have "(l, ?v l - mean) \<in> set centred"
      unfolding centred_def by force
    with dc have "map_of centred l = Some (?v l - mean)" by (rule map_of_is_SomeI)
    then show "dict_get centred l = Some (?v l - mean_utility records attr_name levels)"
      unfolding dict_get_def mean .
  qed
qed

lemma utilities_loop_centred:
  fixes records :: "choice_record list"
  assumes "distinct (map fst utilities @ map fst attributes)"
    and "\<forall>(attr_name, levels) \<in> set attributes. levels \<noteq> []"
    and "\<forall>attr_name l. counter_get (level_chosen attr_name) l = chosen_count records attr_name l"
  shows "\<exists>U. utilities_loop level_chosen (total_choices records) attributes utilities =
               Inr (utilities @ U)
           \<and> map fst U = map fst attributes
           \<and> (\<forall>(attr_name, levels) \<in> set attributes.
                 \<exists>attr_utils. (attr_name, attr_utils) \<in> set U
                   \<and> fst ` set attr_utils = set levels
                   \<and> (\<forall>l \<in> set levels. dict_get attr_utils l =
                         Some (raw_utility records attr_name levels l
                               - mean_utility records attr_name levels)))"
  using assms(1,2)
proof (induction attributes arbitrary: utilities)
  case Nil
  then show ?case by simp
next
  case (Cons a attributes)
  obtain attr_name levels where a: "a = (attr_name, levels)" by (cases a)
  from Cons.prems(2) have ne: "levels \<noteq> []" by (simp add: a)
  from Cons.prems(1) have fresh: "attr_name \<notin> fst ` set utilities" by (auto simp: a)
  have cnt: "\<forall>l. counter_get (level_chosen attr_name) l = chosen_count records attr_name l"
    using assms(3) by blast
  define lu where
    "lu = level_utils (level_chosen attr_name) (total_choices records)
            (1 / real (length levels)) levels []"
  define mean where
    "mean = (if lu \<noteq> [] then sum_list (map snd lu) / real (length lu) else 0)"
  define centred where "centred = map (\<lambda>(level, u). (level, u - mean)) lu"
  have keys: "fst ` set centred = set levels"
    unfolding centred_def mean_def lu_def by (rule attr_utils_centred(2) [OF ne cnt])
  have vals: "\<forall>l \<in> set levels. dict_get centred l =
                Some (raw_utility records attr_name levels l
                      - mean_utility records attr_name levels)"
    unfolding centred_def mean_def lu_def by (rule attr_utils_centred(3) [OF ne cnt])
  have step: "utilities_loop level_chosen (total_choices records) (a # attributes) utilities =
              utilities_loop level_chosen (total_choices records) attributes
                (utilities @ [(attr_name, centred)])"
    using ne
    by (simp add: a Let_def lu_def mean_def centred_def dict_set_fresh [OF fresh])
  from Cons.prems have d: "distinct (map fst (utilities @ [(attr_name, centred)]) @ map fst attributes)"
    and rest: "\<forall>(attr_name, levels) \<in> set attributes. levels \<noteq> []"
    by (auto simp: a)
  from Cons.IH [OF d rest] obtain U where
    U1: "utilities_loop level_chosen (total_choices records) attributes
           (utilities @ [(attr_name, centred)]) = Inr ((utilities @ [(attr_name, centred)]) @ U)"
    and U2: "map fst U = map fst attributes"
    and U3: "\<forall>(attr_name, levels) \<in> set attributes.
               \<exists>attr_utils. (attr_name, attr_utils) \<in> set U
                 \<and> fst ` set attr_utils = set levels
                 \<and> (\<forall>l \<in> set levels. dict_get attr_utils l =
                       Some (raw_utility records attr_name levels l
                             - mean_utility records attr_name levels))"
    by blast
  let ?U = "(attr_name, centred) # U"
  have "utilities_loop level_chosen (total_choices records) (a # attributes) utilities =
        Inr (utilities @ ?U)"
    unfolding step U1 by simp
  moreover have "map fst ?U = map fst (a # attributes)"
    using U2 by (simp add: a)
  moreover have "\<forall>(attr_name, levels) \<in> set (a # attributes).
               \<exists>attr_utils. (attr_name, attr_utils) \<in> set ?U
                 \<and> fst ` set attr_utils = set levels
                 \<and> (\<forall>l \<in> set levels. dict_get attr_utils l =
                       Some (raw_utility records attr_name levels l
                             - mean_utility records attr_name levels))"
  proof -
    have here: "\<exists>attr_utils. (attr_name, attr_utils) \<in> set ?U
                 \<and> fst ` set attr_utils = set levels
                 \<and> (\<forall>l \<in> set levels. dict_get attr_utils l =
                       Some (raw_utility records attr_name levels l
                             - mean_utility records attr_name levels))"
      using keys vals by (intro exI [of _ centred]) simp
    have there: "\<exists>attr_utils. (n, attr_utils) \<in> set ?U
                 \<and> fst ` set attr_utils = set ls
                 \<and> (\<forall>l \<in> set ls. dict_get attr_utils l =
                       Some (raw_utility records n ls l - mean_utility records n ls))"
      if "(n, ls) \<in> set attributes" for n ls
    proof -
      from U3 that obtain attr_utils where
        "(n, attr_utils) \<in> set U" "fst ` set attr_utils = set ls"
        "\<forall>l \<in> set ls. dict_get attr_utils l =
           Some (raw_utility records n ls l - mean_utility records n ls)"
        by blast
      then show ?thesis by (intro exI [of _ attr_utils]) simp
    qed
    show ?thesis
      unfolding a using here there by (simp add: case_prod_unfold Ball_def)
  qed
  ultimately show ?case by blast
qed

text \<open>
  C1. The claim gives every level of every attribute of every specification a utility. For
  the specification \<open>{color: [red], size: []}\<close> and one record that chose
  \<open>{color: red}\<close>, the level \<open>red\<close> is to get \<open>ln ((1 / 1) / (1 / 1)) = 0\<close>; the
  estimator raises \<open>ZeroDivisionError\<close> at \<open>expected_share = 1.0 / n_levels\<close> instead
  and returns no table. The guard \<open>if attr_utils else 0\<close> of the mean, which only an
  attribute without levels could need, is never reached.
\<close>

theorem compute_utilities_empty_levels:
  "compute_utilities
     [\<lparr>rec_task = 1, rec_chosen_profile = Some [(''color'', ''red'')], rec_agent_traits = []\<rparr>]
     [(''color'', [''red'']), (''size'', [])] = Inl ZeroDivisionError"
  by (simp add: compute_utilities_def Let_def)

text \<open>
  Where every attribute has at least one level, the estimator returns a utility table with
  the attributes of the specification, in which the levels of an attribute are the keys of its
  entry and every level has its pre-centring utility minus the mean of the pre-centring
  utilities of the attribute's levels. The pre-centring utility is
  \<open>ln ((chosen_count / total_choices) / (1 / number of levels))\<close> when \<open>chosen_count > 0\<close>
  and \<open>-2\<close> when \<open>chosen_count = 0\<close>; \<open>chosen_count\<close> counts the records with a chosen
  profile that has the level, \<open>total_choices\<close> the records with a chosen profile.
\<close>

theorem compute_utilities_counting:
  fixes records :: "choice_record list"
  assumes "distinct (map fst attributes)"
    and "\<forall>(attr_name, levels) \<in> set attributes. levels \<noteq> []"
  shows "\<exists>U. compute_utilities records attributes = Inr U
           \<and> map fst U = map fst attributes
           \<and> (\<forall>(attr_name, levels) \<in> set attributes.
                 \<exists>attr_utils. dict_get U attr_name = Some attr_utils
                   \<and> fst ` set attr_utils = set levels
                   \<and> (\<forall>l \<in> set levels. dict_get attr_utils l =
                         Some (raw_utility records attr_name levels l
                               - mean_utility records attr_name levels)))"
proof -
  let ?lc = "count_chosen records (map fst attributes) (\<lambda>attr. Map.empty)"
  have cnt: "counter_get (?lc attr_name) l = chosen_count records attr_name l"
    if "attr_name \<in> fst ` set attributes" for attr_name l
    using count_chosen_counts [OF assms(1), of records "\<lambda>attr. Map.empty" attr_name l] that
    by (simp add: counter_get_def)
  define lc where "lc = (\<lambda>attr_name. if attr_name \<in> fst ` set attributes then ?lc attr_name
                                      else (\<lambda>l. if chosen_count records attr_name l = 0 then None
                                                 else Some (chosen_count records attr_name l)))"
  have lc: "\<forall>attr_name l. counter_get (lc attr_name) l = chosen_count records attr_name l"
    using cnt by (auto simp: lc_def counter_get_def)
  have same: "utilities_loop ?lc n attrs acc = utilities_loop lc n attrs acc"
    if "fst ` set attrs \<subseteq> fst ` set attributes" for n attrs acc
    using that
  proof (induction attrs arbitrary: acc)
    case Nil
    then show ?case by simp
  next
    case (Cons a attrs)
    obtain attr_name levels where a: "a = (attr_name, levels)" by (cases a)
    from Cons.prems have "lc attr_name = ?lc attr_name" by (simp add: a lc_def)
    moreover from Cons.prems have "fst ` set attrs \<subseteq> fst ` set attributes" by simp
    ultimately show ?case using Cons.IH by (simp add: a Let_def)
  qed
  from utilities_loop_centred [of "[]" attributes lc records] assms lc
  obtain U where
    U1: "utilities_loop lc (total_choices records) attributes [] = Inr U"
    and U2: "map fst U = map fst attributes"
    and U3: "\<forall>(attr_name, levels) \<in> set attributes.
               \<exists>attr_utils. (attr_name, attr_utils) \<in> set U
                 \<and> fst ` set attr_utils = set levels
                 \<and> (\<forall>l \<in> set levels. dict_get attr_utils l =
                       Some (raw_utility records attr_name levels l
                             - mean_utility records attr_name levels))"
    by auto
  have r: "compute_utilities records attributes = Inr U"
    unfolding compute_utilities_def Let_def total_choices_def [symmetric]
    using same [of attributes "total_choices records" "[]"] U1 by simp
  from U2 assms(1) have dU: "distinct (map fst U)" by simp
  have "\<exists>attr_utils. dict_get U attr_name = Some attr_utils
          \<and> fst ` set attr_utils = set levels
          \<and> (\<forall>l \<in> set levels. dict_get attr_utils l =
                Some (raw_utility records attr_name levels l
                      - mean_utility records attr_name levels))"
    if "(attr_name, levels) \<in> set attributes" for attr_name levels
  proof -
    from U3 that obtain attr_utils where
      m: "(attr_name, attr_utils) \<in> set U" and k: "fst ` set attr_utils = set levels"
      and v: "\<forall>l \<in> set levels. dict_get attr_utils l =
           Some (raw_utility records attr_name levels l - mean_utility records attr_name levels)"
      by blast
    from dU m have "dict_get U attr_name = Some attr_utils"
      unfolding dict_get_def by (rule map_of_is_SomeI)
    with k v show ?thesis by blast
  qed
  with r U2 show ?thesis by blast
qed

theorem compute_utilities_counting_witness:
  "(\<exists>U. compute_utilities
          [\<lparr>rec_task = 1, rec_chosen_profile = Some [(''color'', ''red'')], rec_agent_traits = []\<rparr>,
           \<lparr>rec_task = 2, rec_chosen_profile = Some [(''color'', ''blue'')], rec_agent_traits = []\<rparr>,
           \<lparr>rec_task = 3, rec_chosen_profile = None, rec_agent_traits = []\<rparr>]
          [(''color'', [''red'', ''blue'', ''green''])] = Inr U
     \<and> map fst U = map fst [(''color'', [''red'', ''blue'', ''green''])]
     \<and> (\<forall>(attr_name, levels) \<in> set [(''color'', [''red'', ''blue'', ''green''])].
           \<exists>attr_utils. dict_get U attr_name = Some attr_utils
             \<and> fst ` set attr_utils = set levels
             \<and> (\<forall>l \<in> set levels. dict_get attr_utils l =
                   Some (raw_utility
          [\<lparr>rec_task = 1, rec_chosen_profile = Some [(''color'', ''red'')], rec_agent_traits = []\<rparr>,
           \<lparr>rec_task = 2, rec_chosen_profile = Some [(''color'', ''blue'')], rec_agent_traits = []\<rparr>,
           \<lparr>rec_task = 3, rec_chosen_profile = None, rec_agent_traits = []\<rparr>]
                           attr_name levels l
                         - mean_utility
          [\<lparr>rec_task = 1, rec_chosen_profile = Some [(''color'', ''red'')], rec_agent_traits = []\<rparr>,
           \<lparr>rec_task = 2, rec_chosen_profile = Some [(''color'', ''blue'')], rec_agent_traits = []\<rparr>,
           \<lparr>rec_task = 3, rec_chosen_profile = None, rec_agent_traits = []\<rparr>]
                           attr_name levels))))
   \<and> raw_utility
          [\<lparr>rec_task = 1, rec_chosen_profile = Some [(''color'', ''red'')], rec_agent_traits = []\<rparr>,
           \<lparr>rec_task = 2, rec_chosen_profile = Some [(''color'', ''blue'')], rec_agent_traits = []\<rparr>,
           \<lparr>rec_task = 3, rec_chosen_profile = None, rec_agent_traits = []\<rparr>]
          ''color'' [''red'', ''blue'', ''green''] ''green'' = - 2
   \<and> raw_utility
          [\<lparr>rec_task = 1, rec_chosen_profile = Some [(''color'', ''red'')], rec_agent_traits = []\<rparr>,
           \<lparr>rec_task = 2, rec_chosen_profile = Some [(''color'', ''blue'')], rec_agent_traits = []\<rparr>,
           \<lparr>rec_task = 3, rec_chosen_profile = None, rec_agent_traits = []\<rparr>]
          ''color'' [''red'', ''blue'', ''green''] ''red'' = ln (3 / 2)"
proof -
  let ?r = "[\<lparr>rec_task = 1, rec_chosen_profile = Some [(''color'', ''red'')], rec_agent_traits = []\<rparr>,
           \<lparr>rec_task = 2, rec_chosen_profile = Some [(''color'', ''blue'')], rec_agent_traits = []\<rparr>,
           \<lparr>rec_task = 3, rec_chosen_profile = None, rec_agent_traits = []\<rparr>]"
  let ?a = "[(''color'', [''red'', ''blue'', ''green''])]"
  have d: "distinct (map fst ?a)" by simp
  have n: "\<forall>(attr_name, levels) \<in> set ?a. levels \<noteq> []" by simp
  have cc: "chosen_count ?r ''color'' ''red'' = 1" "chosen_count ?r ''color'' ''green'' = 0"
    "total_choices ?r = 2"
    by (simp_all add: chosen_count_def total_choices_def dict_get_def)
  have raw: "raw_utility ?r ''color'' [''red'', ''blue'', ''green''] ''green'' = - 2"
    "raw_utility ?r ''color'' [''red'', ''blue'', ''green''] ''red'' = ln (3 / 2)"
    unfolding raw_utility_def cc by simp_all
  note t = compute_utilities_counting [OF d n, of ?r]
  show ?thesis
    by (intro conjI) (rule t, rule raw(1), rule raw(2))
qed

section \<open>Facts about the random number generator\<close>

lemma randbelow_less: "0 < n \<Longrightarrow> fst (randbelow n g) < n"
  by (simp add: randbelow_def)

lemma shuffle_from_mset: "i < length x \<Longrightarrow> mset (fst (shuffle_from i x g)) = mset x"
proof (induction i arbitrary: x g)
  case 0
  then show ?case by simp
next
  case (Suc i)
  define j where "j = fst (randbelow (Suc (Suc i)) g)"
  define g' where "g' = snd (randbelow (Suc (Suc i)) g)"
  have r: "randbelow (Suc (Suc i)) g = (j, g')" by (simp add: j_def g'_def)
  have "j < Suc (Suc i)" unfolding j_def by (rule randbelow_less) simp
  with Suc.prems have j: "j < length x" by simp
  let ?x = "x[Suc i := x ! j, j := x ! Suc i]"
  have swap: "mset ?x = mset x"
    using mset_swap [OF j Suc.prems] .
  have "i < length ?x" using Suc.prems by simp
  from Suc.IH [OF this, of g'] swap show ?case
    by (simp add: r)
qed

lemma shuffle_mset: "mset (fst (shuffle x g)) = mset x"
proof (cases "x = []")
  case True
  then show ?thesis by (simp add: shuffle_def)
next
  case False
  then have "length x - 1 < length x" by simp
  then show ?thesis unfolding shuffle_def by (rule shuffle_from_mset)
qed

lemma shuffle_set: "shuffle x g = (x', g') \<Longrightarrow> set x' = set x"
  using shuffle_mset [of x g] by (metis fst_conv mset_eq_setD)

lemma shuffle_length: "shuffle x g = (x', g') \<Longrightarrow> length x' = length x"
  using shuffle_mset [of x g] by (metis fst_conv mset_eq_length)

lemma shuffle_mset': "shuffle x g = (x', g') \<Longrightarrow> mset x' = mset x"
  using shuffle_mset [of x g] by simp

lemma randint_range:
  assumes "a \<le> b"
  shows "\<exists>i g'. randint a b g = Inr (i, g') \<and> a \<le> i \<and> i \<le> b"
proof -
  have "fst (randbelow (nat (b - a + 1)) g) < nat (b - a + 1)"
    using assms by (intro randbelow_less) simp
  then have "int (fst (randbelow (nat (b - a + 1)) g)) \<le> b - a" by linarith
  then show ?thesis
    using assms by (simp add: randint_def case_prod_unfold)
qed

lemma randint_empty: "b < a \<Longrightarrow> randint a b g = Inl ValueError"
  by (simp add: randint_def)

section \<open>Facts about the design search\<close>

lemma profile_diff_count_ok:
  "fst ` set p1 \<subseteq> fst ` set p2 \<Longrightarrow> \<exists>n. profile_diff_count p1 p2 = Inr n"
proof (induction p1)
  case Nil
  then show ?case by simp
next
  case (Cons kv p1)
  obtain k v where kv: "kv = (k, v)" by (cases kv)
  from Cons.prems have "k \<in> fst ` set p2" by (simp add: kv)
  then obtain v2 where v2: "map_of p2 k = Some v2"
    by (metis domD dom_map_of_conv_image_fst)
  from Cons.prems have "fst ` set p1 \<subseteq> fst ` set p2" by simp
  from Cons.IH [OF this] obtain n where "profile_diff_count p1 p2 = Inr n" by blast
  with v2 show ?case by (simp add: kv)
qed

lemma all_min_diff_ok:
  "\<forall>t \<in> set task. fst ` set cand \<subseteq> fst ` set t \<Longrightarrow>
   \<exists>ok. all_min_diff cand task min_diff = Inr ok"
proof (induction task)
  case Nil
  show ?case by (rule exI [of _ True]) simp
next
  case (Cons t task)
  from Cons.prems have "fst ` set cand \<subseteq> fst ` set t" by simp
  from profile_diff_count_ok [OF this] obtain d where d: "profile_diff_count cand t = Inr d"
    by blast
  from Cons.prems have "\<forall>t \<in> set task. fst ` set cand \<subseteq> fst ` set t" by simp
  from Cons.IH [OF this] obtain ok where "all_min_diff cand task min_diff = Inr ok" by blast
  with d show ?case by (cases "min_diff \<le> int d") auto
qed

lemma add_candidates_ok:
  assumes "\<forall>p \<in> set candidates \<union> set task. map fst p = names"
  shows "\<exists>task'. add_candidates candidates task profiles_per_task min_diff = Inr task'"
  using assms
proof (induction candidates arbitrary: task)
  case Nil
  then show ?case by simp
next
  case (Cons cand candidates)
  have "\<forall>t \<in> set task. fst ` set cand \<subseteq> fst ` set t"
  proof
    fix t assume "t \<in> set task"
    with Cons.prems have "map fst t = map fst cand" by simp
    then have "set (map fst t) = set (map fst cand)" by simp
    then show "fst ` set cand \<subseteq> fst ` set t" by simp
  qed
  from all_min_diff_ok [OF this] obtain ok where ok: "all_min_diff cand task min_diff = Inr ok"
    by blast
  from Cons.prems
  have "\<forall>p \<in> set candidates \<union> set (if ok then task @ [cand] else task). map fst p = names"
    by simp
  from Cons.IH [OF this] ok show ?case by simp
qed

lemma add_candidates_mset:
  "add_candidates candidates task profiles_per_task min_diff = Inr task' \<Longrightarrow>
   mset task \<subseteq># mset task' \<and> mset task' \<subseteq># mset task + mset candidates"
proof (induction candidates arbitrary: task)
  case Nil
  then show ?case by simp
next
  case (Cons cand candidates)
  show ?case
  proof (cases "int (length task) \<ge> profiles_per_task")
    case True
    with Cons.prems show ?thesis by simp
  next
    case False
    with Cons.prems obtain ok where ok: "all_min_diff cand task min_diff = Inr ok"
      and r: "add_candidates candidates (if ok then task @ [cand] else task)
                profiles_per_task min_diff = Inr task'"
      by (auto split: sum.splits)
    from Cons.IH [OF r]
    have a: "mset (if ok then task @ [cand] else task) \<subseteq># mset task'"
      and b: "mset task' \<subseteq># mset (if ok then task @ [cand] else task) + mset candidates"
      by simp_all
    have "mset task \<subseteq># mset (if ok then task @ [cand] else task)" by simp
    from this a have 1: "mset task \<subseteq># mset task'" by (rule subset_mset.order_trans)
    have "mset (if ok then task @ [cand] else task) + mset candidates
          \<subseteq># mset task + mset (cand # candidates)" by simp
    with b have 2: "mset task' \<subseteq># mset task + mset (cand # candidates)"
      by (rule subset_mset.order_trans)
    from 1 2 show ?thesis by blast
  qed
qed

lemma fill_remaining_mset:
  "mset task \<subseteq># mset (fill_remaining remaining task profiles_per_task)
   \<and> mset (fill_remaining remaining task profiles_per_task) \<subseteq># mset task + mset remaining"
proof (induction remaining arbitrary: task)
  case Nil
  then show ?case by simp
next
  case (Cons cand remaining)
  show ?case
  proof (cases "int (length task) \<ge> profiles_per_task")
    case True
    then show ?thesis by simp
  next
    case False
    from Cons.IH [of "task @ [cand]"]
    have a: "mset (task @ [cand]) \<subseteq># mset (fill_remaining remaining (task @ [cand]) profiles_per_task)"
      and b: "mset (fill_remaining remaining (task @ [cand]) profiles_per_task)
              \<subseteq># mset (task @ [cand]) + mset remaining"
      by simp_all
    have "mset task \<subseteq># mset (task @ [cand])" by simp
    with a have "mset task \<subseteq># mset (fill_remaining remaining (task @ [cand]) profiles_per_task)"
      by (rule subset_mset.order_trans [rotated])
    with b False show ?thesis by simp
  qed
qed

lemma dict_eq_refl: "dict_eq p p"
  by (simp add: dict_eq_def)

lemma mset_subset_filter:
  assumes "mset xs \<subseteq># mset ys" and "\<forall>x \<in> set xs. P x"
  shows "mset xs \<subseteq># filter_mset P (mset ys)"
proof -
  have "filter_mset P (mset xs) \<subseteq># filter_mset P (mset ys)"
    using assms(1) by (rule multiset_filter_mono)
  moreover have "filter_mset P (mset xs) = mset xs"
    using assms(2) by (simp add: filter_mset_eq_conv)
  ultimately show ?thesis by simp
qed

text \<open>Every task is a sub-multiset of the profile list: the key fact of the search.\<close>

lemma build_task_mset:
  assumes "build_task profiles profiles_per_task min_diff first g = Inr (task, g')"
    and "first \<in> set profiles"
  shows "mset task \<subseteq># mset profiles"
proof -
  obtain candidates g1 where s1: "shuffle [p \<leftarrow> profiles. \<not> dict_eq p first] g = (candidates, g1)"
    by (cases "shuffle [p \<leftarrow> profiles. \<not> dict_eq p first] g")
  from assms(1) obtain task1 where
    a: "add_candidates candidates [first] profiles_per_task min_diff = Inr task1"
    by (auto simp: build_task_def s1 split: sum.splits)
  have c: "mset candidates = filter_mset (\<lambda>p. \<not> dict_eq p first) (mset profiles)"
    using shuffle_mset' [OF s1] by simp
  have "mset [first] \<subseteq># mset profiles" using assms(2) by simp
  then have f: "mset [first] \<subseteq># filter_mset (\<lambda>p. dict_eq p first) (mset profiles)"
    by (rule mset_subset_filter) (simp add: dict_eq_refl)
  from add_candidates_mset [OF a] have "mset task1 \<subseteq># mset [first] + mset candidates"
    by blast
  also have "\<dots> \<subseteq># filter_mset (\<lambda>p. dict_eq p first) (mset profiles)
                  + filter_mset (\<lambda>p. \<not> dict_eq p first) (mset profiles)"
    unfolding c using f by (rule subset_mset.add_right_mono)
  also have "\<dots> = mset profiles" by (rule multiset_partition [symmetric])
  finally have t1: "mset task1 \<subseteq># mset profiles" .
  show ?thesis
  proof (cases "int (length task1) < profiles_per_task")
    case False
    with assms(1) a have "task = task1" by (simp add: build_task_def s1)
    with t1 show ?thesis by simp
  next
    case True
    let ?P = "\<lambda>p. list_ex (dict_eq p) task1"
    obtain remaining g2 where s2: "shuffle [p \<leftarrow> profiles. \<not> ?P p] g1 = (remaining, g2)"
      by (cases "shuffle [p \<leftarrow> profiles. \<not> ?P p] g1")
    from assms(1) a True have task: "task = fill_remaining remaining task1 profiles_per_task"
      by (simp add: build_task_def s1 s2)
    have r: "mset remaining = filter_mset (\<lambda>p. \<not> ?P p) (mset profiles)"
      using shuffle_mset' [OF s2] by simp
    have "\<forall>p \<in> set task1. ?P p"
      by (auto simp: list_ex_iff intro: dict_eq_refl)
    with t1 have p: "mset task1 \<subseteq># filter_mset ?P (mset profiles)"
      by (rule mset_subset_filter)
    from fill_remaining_mset [of task1 remaining profiles_per_task]
    have "mset task \<subseteq># mset task1 + mset remaining" unfolding task by blast
    also have "\<dots> \<subseteq># filter_mset ?P (mset profiles) + filter_mset (\<lambda>p. \<not> ?P p) (mset profiles)"
      unfolding r using p by (rule subset_mset.add_right_mono)
    also have "\<dots> = mset profiles" by (rule multiset_partition [symmetric])
    finally show ?thesis .
  qed
qed

lemma build_task_ok:
  assumes "\<forall>p \<in> set profiles. map fst p = names" and "first \<in> set profiles"
  shows "\<exists>task g'. build_task profiles profiles_per_task min_diff first g = Inr (task, g')"
proof -
  obtain candidates g1 where s1: "shuffle [p \<leftarrow> profiles. \<not> dict_eq p first] g = (candidates, g1)"
    by (cases "shuffle [p \<leftarrow> profiles. \<not> dict_eq p first] g")
  from shuffle_set [OF s1] have "set candidates \<subseteq> set profiles" by auto
  with assms have "\<forall>p \<in> set candidates \<union> set [first]. map fst p = names" by auto
  from add_candidates_ok [OF this] obtain task1 where
    "add_candidates candidates [first] profiles_per_task min_diff = Inr task1" by blast
  then show ?thesis
    by (simp add: build_task_def s1 case_prod_unfold)
qed

lemma randint_Inr: "randint a b g = Inr (i, g') \<Longrightarrow> a \<le> i \<and> i \<le> b"
proof -
  assume r: "randint a b g = Inr (i, g')"
  then have w: "\<not> b - a + 1 \<le> 0" by (auto simp: randint_def split: if_splits)
  then have "fst (randbelow (nat (b - a + 1)) g) < nat (b - a + 1)"
    by (intro randbelow_less) simp
  moreover from r w have "i = a + int (fst (randbelow (nat (b - a + 1)) g))"
    by (auto simp: randint_def case_prod_unfold)
  ultimately show ?thesis by linarith
qed

lemma pop_subset: "set (take i xs @ drop (Suc i) xs) \<subseteq> set xs"
  using set_take_subset [of i xs] set_drop_subset [of "Suc i" xs] by auto

text \<open>The pool of the task loop before a round, refilled when it is empty.\<close>

lemma refill_subset:
  assumes "(if available = [] then shuffle profiles g else (available, g)) = (available1, g1)"
    and "set available \<subseteq> set profiles"
  shows "set available1 \<subseteq> set profiles"
proof (cases "available = []")
  case True
  with assms(1) have "shuffle profiles g = (available1, g1)" by simp
  from shuffle_set [OF this] show ?thesis by simp
next
  case False
  with assms show ?thesis by simp
qed

lemma refill_nonempty:
  assumes "(if available = [] then shuffle profiles g else (available, g)) = (available1, g1)"
    and "profiles \<noteq> []"
  shows "available1 \<noteq> []"
proof (cases "available = []")
  case True
  with assms(1) have "shuffle profiles g = (available1, g1)" by simp
  from shuffle_length [OF this] assms(2) show ?thesis by auto
next
  case False
  with assms show ?thesis by simp
qed

text \<open>
  A property that every task built from a first profile of the pool has holds of every task
  of the choice sets.
\<close>

lemma tasks_loop_inv:
  assumes step: "\<And>first g task g'. first \<in> set profiles \<Longrightarrow>
                   build_task profiles profiles_per_task min_diff first g = Inr (task, g') \<Longrightarrow>
                   P task"
    and "tasks_loop k profiles profiles_per_task min_diff available choice_sets g =
             Inr (choice_sets', g')"
    and "set available \<subseteq> set profiles"
    and "\<forall>task \<in> set choice_sets. P task"
  shows "(\<forall>task \<in> set choice_sets'. P task)
       \<and> length choice_sets' = length choice_sets + k"
  using assms(2-)
proof (induction k arbitrary: available choice_sets g)
  case 0
  then show ?case by simp
next
  case (Suc k)
  obtain available1 g1 where
    refill: "(if available = [] then shuffle profiles g else (available, g)) = (available1, g1)"
    by (cases "if available = [] then shuffle profiles g else (available, g)")
  from refill_subset [OF refill Suc.prems(2)] have sub1: "set available1 \<subseteq> set profiles" .
  from Suc.prems(1) refill obtain i g2 where
    ri: "randint 0 (int (length available1) - 1) g1 = Inr (i, g2)"
    by (auto split: sum.splits)
  from randint_Inr [OF ri] have i: "0 \<le> i" "nat i < length available1" by auto
  let ?first = "available1 ! nat i"
  let ?available2 = "take (nat i) available1 @ drop (Suc (nat i)) available1"
  from i sub1 have first: "?first \<in> set profiles" by (meson nth_mem subsetD)
  from Suc.prems(1) refill ri obtain task g3 where
    bt: "build_task profiles profiles_per_task min_diff ?first g2 = Inr (task, g3)"
    and rest: "tasks_loop k profiles profiles_per_task min_diff ?available2
                 (choice_sets @ [task]) g3 = Inr (choice_sets', g')"
    by (auto simp: Let_def split: sum.splits)
  from step [OF first bt] Suc.prems(3)
  have inv: "\<forall>task \<in> set (choice_sets @ [task]). P task" by simp
  have sub2: "set ?available2 \<subseteq> set profiles"
    using pop_subset [of "nat i" available1] sub1 by blast
  from Suc.IH [OF rest sub2 inv] show ?case by simp
qed

lemma tasks_loop_ok:
  assumes "\<forall>p \<in> set profiles. map fst p = names"
    and "profiles \<noteq> []"
    and "set available \<subseteq> set profiles"
  shows "\<exists>choice_sets' g'.
           tasks_loop k profiles profiles_per_task min_diff available choice_sets g =
             Inr (choice_sets', g')"
  using assms(3)
proof (induction k arbitrary: available choice_sets g)
  case 0
  then show ?case by simp
next
  case (Suc k)
  obtain available1 g1 where
    refill: "(if available = [] then shuffle profiles g else (available, g)) = (available1, g1)"
    by (cases "if available = [] then shuffle profiles g else (available, g)")
  from refill_subset [OF refill Suc.prems] have sub1: "set available1 \<subseteq> set profiles" .
  from refill_nonempty [OF refill assms(2)] have "0 \<le> int (length available1) - 1"
    by (cases available1) simp_all
  from randint_range [OF this, of g1] obtain i g2 where
    ri: "randint 0 (int (length available1) - 1) g1 = Inr (i, g2)"
    and i: "0 \<le> i" "i \<le> int (length available1) - 1"
    by blast
  let ?first = "available1 ! nat i"
  let ?available2 = "take (nat i) available1 @ drop (Suc (nat i)) available1"
  from i have "nat i < length available1" by linarith
  with sub1 have first: "?first \<in> set profiles" by (meson nth_mem subsetD)
  from build_task_ok [OF assms(1) first, of profiles_per_task min_diff g2] obtain task g3 where
    bt: "build_task profiles profiles_per_task min_diff ?first g2 = Inr (task, g3)"
    by blast
  have sub2: "set ?available2 \<subseteq> set profiles"
    using pop_subset [of "nat i" available1] sub1 by blast
  from Suc.IH [OF sub2, of "choice_sets @ [task]" g3] obtain choice_sets' g' where
    "tasks_loop k profiles profiles_per_task min_diff ?available2 (choice_sets @ [task]) g3 =
       Inr (choice_sets', g')"
    by blast
  with refill ri bt show ?case by (simp add: Let_def)
qed

lemma search_loop_inv:
  assumes step: "\<And>first g task g'. first \<in> set profiles \<Longrightarrow>
                   build_task profiles profiles_per_task min_diff first g = Inr (task, g') \<Longrightarrow>
                   P task"
    and "search_loop k profiles attributes n_tasks profiles_per_task min_diff best g =
             Inr (best', g')"
    and "\<forall>choice_sets score. best = Some (choice_sets, score) \<longrightarrow>
           (\<forall>task \<in> set choice_sets. P task) \<and> length choice_sets = nat n_tasks"
  shows "(\<forall>choice_sets score. best' = Some (choice_sets, score) \<longrightarrow>
           (\<forall>task \<in> set choice_sets. P task) \<and> length choice_sets = nat n_tasks)
       \<and> (0 < k \<or> best \<noteq> None \<longrightarrow> best' \<noteq> None)"
  using assms(2-)
proof (induction k arbitrary: best g)
  case 0
  then show ?case by simp
next
  case (Suc k)
  obtain available g1 where sh: "shuffle profiles g = (available, g1)"
    by (cases "shuffle profiles g")
  from shuffle_set [OF sh] have sub: "set available \<subseteq> set profiles" by simp
  from Suc.prems(1) sh obtain choice_sets g2 score where
    tl: "tasks_loop (nat n_tasks) profiles profiles_per_task min_diff available [] g1 =
           Inr (choice_sets, g2)"
    and rest: "search_loop k profiles attributes n_tasks profiles_per_task min_diff
                 (case best of
                    None \<Rightarrow> Some (choice_sets, score)
                  | Some (best_sets, best_score) \<Rightarrow>
                      if score < best_score then Some (choice_sets, score)
                      else Some (best_sets, best_score))
                 g2 = Inr (best', g')"
    by (auto split: sum.splits)
  from tasks_loop_inv [of profiles profiles_per_task min_diff P, OF step tl sub]
  have new: "(\<forall>task \<in> set choice_sets. P task) \<and> length choice_sets = nat n_tasks"
    by simp
  let ?best = "case best of
                 None \<Rightarrow> Some (choice_sets, score)
               | Some (best_sets, best_score) \<Rightarrow>
                   if score < best_score then Some (choice_sets, score)
                   else Some (best_sets, best_score)"
  have k: "\<forall>cs sc. ?best = Some (cs, sc) \<longrightarrow>
             (\<forall>task \<in> set cs. P task) \<and> length cs = nat n_tasks"
    using new Suc.prems(2) by (cases best) (auto split: if_splits)
  have "?best \<noteq> None" by (cases best) auto
  with Suc.IH [OF rest k] show ?case by simp
qed

lemma complete_profiles_keys:
  assumes "\<forall>task \<in> set choice_sets. \<forall>p \<in> set task. map fst p = map fst attributes"
  shows "complete_profiles choice_sets attributes"
  unfolding complete_profiles_def dict_get_def
proof (intro ballI)
  fix cs profile attr_name
  assume "cs \<in> set choice_sets" "profile \<in> set cs" "attr_name \<in> fst ` set attributes"
  with assms have "attr_name \<in> set (map fst profile)" by simp
  then have "attr_name \<in> fst ` set profile" by simp
  then show "map_of profile attr_name \<noteq> None"
    by (metis domIff dom_map_of_conv_image_fst)
qed

lemma search_loop_ok:
  assumes "\<forall>p \<in> set profiles. map fst p = map fst attributes"
    and "profiles \<noteq> []"
  shows "\<exists>best' g'.
           search_loop k profiles attributes n_tasks profiles_per_task min_diff best g =
             Inr (best', g')"
proof (induction k arbitrary: best g)
  case 0
  then show ?case by simp
next
  case (Suc k)
  obtain available g1 where sh: "shuffle profiles g = (available, g1)"
    by (cases "shuffle profiles g")
  from shuffle_set [OF sh] have sub: "set available \<subseteq> set profiles" by simp
  from tasks_loop_ok [OF assms sub, of "nat n_tasks" profiles_per_task min_diff "[]" g1]
  obtain choice_sets g2 where
    tl: "tasks_loop (nat n_tasks) profiles profiles_per_task min_diff available [] g1 =
           Inr (choice_sets, g2)"
    by blast
  have "mset task \<subseteq># mset profiles"
    if "first \<in> set profiles"
      "build_task profiles profiles_per_task min_diff first g = Inr (task, g')"
    for first g task g'
    using that(2,1) by (rule build_task_mset)
  from tasks_loop_inv [of profiles profiles_per_task min_diff
      "\<lambda>task. mset task \<subseteq># mset profiles", OF this tl sub]
  have "\<forall>task \<in> set choice_sets. mset task \<subseteq># mset profiles" by simp
  then have "\<forall>task \<in> set choice_sets. \<forall>p \<in> set task. p \<in> set profiles"
    by (meson mset_subset_eqD in_multiset_in_set)
  with assms(1) have "complete_profiles choice_sets attributes"
    by (intro complete_profiles_keys) blast
  from score_attributes_sum [OF this, of 0]
  have sc: "level_balance_score choice_sets attributes = Inr (balance_sum choice_sets attributes)"
    by (simp add: level_balance_score_def)
  from Suc.IH obtain best' g' where
    "search_loop k profiles attributes n_tasks profiles_per_task min_diff
       (case best of
          None \<Rightarrow> Some (choice_sets, balance_sum choice_sets attributes)
        | Some (best_sets, best_score) \<Rightarrow>
            if balance_sum choice_sets attributes < best_score
            then Some (choice_sets, balance_sum choice_sets attributes)
            else Some (best_sets, best_score))
       g2 = Inr (best', g')"
    by blast
  with sh tl sc show ?case by simp
qed

lemma shuffle_each_mset:
  "shuffle_each choice_sets g = (choice_sets', g') \<Longrightarrow>
   list_all2 (\<lambda>cs' cs. mset cs' = mset cs) choice_sets' choice_sets"
proof (induction choice_sets arbitrary: g choice_sets' g')
  case Nil
  then show ?case by simp
next
  case (Cons cs choice_sets)
  obtain cs' g1 where s1: "shuffle cs g = (cs', g1)" by (cases "shuffle cs g")
  obtain rest g2 where s2: "shuffle_each choice_sets g1 = (rest, g2)"
    by (cases "shuffle_each choice_sets g1")
  from Cons.prems s1 s2 have "choice_sets' = cs' # rest" by simp
  with Cons.IH [OF s2] shuffle_mset' [OF s1] show ?case by simp
qed

text \<open>
  One version: a property of every task built, kept by a permutation of the task, holds of
  every task of the version; and the version has \<open>n_tasks\<close> tasks.
\<close>

lemma version_from_stream_inv:
  assumes step: "\<And>first g task g'. first \<in> set profiles \<Longrightarrow>
                   build_task profiles profiles_per_task min_diff first g = Inr (task, g') \<Longrightarrow>
                   P task"
    and perm: "\<And>task task'. mset task' = mset task \<Longrightarrow> P task \<Longrightarrow> P task'"
    and run: "version_from_stream profiles attributes n_tasks profiles_per_task min_diff g0 =
                Inr choice_sets'"
  shows "(\<forall>task \<in> set choice_sets'. P task) \<and> length choice_sets' = nat n_tasks"
proof -
  from run obtain choice_sets score g1 where
    gen: "generate_one_version profiles attributes n_tasks profiles_per_task min_diff 1000 g0 =
            Inr (Some (choice_sets, score), g1)"
    and cs': "choice_sets' = fst (shuffle_each choice_sets g1)"
    by (auto simp: version_from_stream_def split: sum.splits option.splits)
  from search_loop_inv [of profiles profiles_per_task min_diff P, OF step
      gen [unfolded generate_one_version_def]]
  have inv: "(\<forall>task \<in> set choice_sets. P task) \<and> length choice_sets = nat n_tasks"
    by simp
  obtain g2 where "shuffle_each choice_sets g1 = (choice_sets', g2)"
    using cs' by (cases "shuffle_each choice_sets g1") simp
  from shuffle_each_mset [OF this]
  have l2: "list_all2 (\<lambda>cs' cs. mset cs' = mset cs) choice_sets' choice_sets" .
  then have len: "length choice_sets' = length choice_sets" by (rule list_all2_lengthD)
  have "P task" if "task \<in> set choice_sets'" for task
  proof -
    from that obtain i where i: "i < length choice_sets'" "choice_sets' ! i = task"
      by (auto simp: in_set_conv_nth)
    with l2 have "mset task = mset (choice_sets ! i)"
      by (auto dest: list_all2_nthD)
    moreover from i len inv have "P (choice_sets ! i)" by simp
    ultimately show ?thesis by (rule perm)
  qed
  with inv len show ?thesis by simp
qed

lemma version_from_stream_ok:
  assumes "\<forall>p \<in> set profiles. map fst p = map fst attributes"
    and "profiles \<noteq> []"
  shows "\<exists>choice_sets'.
           version_from_stream profiles attributes n_tasks profiles_per_task min_diff g0 =
             Inr choice_sets'"
proof -
  from search_loop_ok [OF assms, of "nat 1000" n_tasks profiles_per_task min_diff None g0]
  obtain best g1 where
    s: "search_loop (nat 1000) profiles attributes n_tasks profiles_per_task min_diff None g0 =
          Inr (best, g1)"
    by blast
  from search_loop_inv [of profiles profiles_per_task min_diff "\<lambda>task. True", OF _ s]
  have "best \<noteq> None" by simp
  then obtain choice_sets score where "best = Some (choice_sets, score)"
    by (cases best) auto
  with s show ?thesis
    by (simp add: version_from_stream_def generate_one_version_def case_prod_unfold)
qed

section \<open>Facts about design generation\<close>

lemma versions_loop_versions:
  "versions_loop random_seed profiles attributes n_tasks profiles_per_task min_diff seed
     vs all_versions g = Inr (out, g') \<Longrightarrow>
   \<exists>new. out = all_versions @ new
     \<and> list_all2 (\<lambda>ver v. v_version ver = int v + 1
           \<and> version_from_stream profiles attributes n_tasks profiles_per_task min_diff
                 (random_seed (seed + int v)) = Inr (v_choice_sets ver)) new vs"
proof (induction vs arbitrary: all_versions g)
  case Nil
  then show ?case by simp
next
  case (Cons v vs)
  let ?g0 = "random_seed (seed + int v)"
  from Cons.prems obtain choice_sets score g1 where
    gen: "generate_one_version profiles attributes n_tasks profiles_per_task min_diff 1000 ?g0 =
            Inr (Some (choice_sets, score), g1)"
    by (auto simp: Let_def split: sum.splits option.splits)
  obtain choice_sets' g2 where sh: "shuffle_each choice_sets g1 = (choice_sets', g2)"
    by (cases "shuffle_each choice_sets g1")
  let ?ver = "\<lparr>v_version = int v + 1, v_balance_score = py_round score 4,
               v_choice_sets = choice_sets'\<rparr>"
  from Cons.prems gen sh have
    rest: "versions_loop random_seed profiles attributes n_tasks profiles_per_task min_diff seed
             vs (all_versions @ [?ver]) g2 = Inr (out, g')"
    by (simp add: Let_def)
  from Cons.IH [OF rest] obtain new where
    out: "out = (all_versions @ [?ver]) @ new"
    and l2: "list_all2 (\<lambda>ver v. v_version ver = int v + 1
           \<and> version_from_stream profiles attributes n_tasks profiles_per_task min_diff
                 (random_seed (seed + int v)) = Inr (v_choice_sets ver)) new vs"
    by blast
  have here: "version_from_stream profiles attributes n_tasks profiles_per_task min_diff ?g0 =
                Inr (v_choice_sets ?ver)"
    using gen sh by (simp add: version_from_stream_def)
  show ?case
    using out l2 here by (intro exI [of _ "?ver # new"]) simp
qed

lemma versions_loop_ok:
  assumes "\<forall>v \<in> set vs. \<exists>choice_sets.
             version_from_stream profiles attributes n_tasks profiles_per_task min_diff
               (random_seed (seed + int v)) = Inr choice_sets"
  shows "\<exists>out g'. versions_loop random_seed profiles attributes n_tasks profiles_per_task
                    min_diff seed vs all_versions g = Inr (out, g')"
  using assms
proof (induction vs arbitrary: all_versions g)
  case Nil
  then show ?case by simp
next
  case (Cons v vs)
  let ?g0 = "random_seed (seed + int v)"
  from Cons.prems obtain cs where
    "version_from_stream profiles attributes n_tasks profiles_per_task min_diff ?g0 = Inr cs"
    by auto
  then obtain choice_sets score g1 where
    gen: "generate_one_version profiles attributes n_tasks profiles_per_task min_diff 1000 ?g0 =
            Inr (Some (choice_sets, score), g1)"
    by (auto simp: version_from_stream_def split: sum.splits option.splits)
  obtain choice_sets' g2 where sh: "shuffle_each choice_sets g1 = (choice_sets', g2)"
    by (cases "shuffle_each choice_sets g1")
  from Cons.prems have "\<forall>v \<in> set vs. \<exists>choice_sets.
             version_from_stream profiles attributes n_tasks profiles_per_task min_diff
               (random_seed (seed + int v)) = Inr choice_sets"
    by simp
  from Cons.IH [OF this] gen sh show ?case by (simp add: Let_def)
qed


lemma generate_design_state:
  "generate_design random_seed spec g = generate_design random_seed spec g0"
  by (simp add: generate_design_def)

lemma generate_design_exit:
  assumes "int (length (all_profiles (spec_attributes spec)))
             < spec_get (spec_profiles_per_task spec) 3"
  shows "generate_design random_seed spec g = Inl (SystemExit 1)"
  using assms by (simp add: generate_design_def Let_def)

lemma generate_design_versions:
  assumes "generate_design random_seed spec g = Inr (out, g')"
  shows "\<not> int (length (all_profiles (spec_attributes spec)))
             < spec_get (spec_profiles_per_task spec) 3"
    and "length (out_versions out) = nat (spec_get (spec_n_versions spec) 4)"
    and "\<forall>v < length (out_versions out).
           v_version (out_versions out ! v) = int v + 1
           \<and> spec_version random_seed spec v = Inr (v_choice_sets (out_versions out ! v))"
    and "out_total_profiles out = length (all_profiles (spec_attributes spec))"
proof -
  let ?profiles = "all_profiles (spec_attributes spec)"
  let ?n = "nat (spec_get (spec_n_versions spec) 4)"
  show ge: "\<not> int (length ?profiles) < spec_get (spec_profiles_per_task spec) 3"
    using assms generate_design_exit [of spec random_seed g] by auto
  from assms ge obtain all_versions where
    vl: "versions_loop random_seed ?profiles (spec_attributes spec)
           (spec_get (spec_tasks_per_version spec) 8) (spec_get (spec_profiles_per_task spec) 3)
           (effective_min_diff spec) (spec_get (spec_seed spec) 42) [0..<?n] []
           (random_seed (spec_get (spec_seed spec) 42)) = Inr (all_versions, g')"
    and out: "out_versions out = all_versions" "out_total_profiles out = length ?profiles"
    by (auto simp: generate_design_def effective_min_diff_def Let_def split: sum.splits)
  from versions_loop_versions [OF vl]
  have l2: "list_all2 (\<lambda>ver v. v_version ver = int v + 1
              \<and> spec_version random_seed spec v = Inr (v_choice_sets ver)) all_versions [0..<?n]"
    by (simp add: spec_version_def)
  from l2 have len: "length all_versions = ?n" by (auto dest: list_all2_lengthD)
  with out show "length (out_versions out) = ?n" by simp
  show "\<forall>v < length (out_versions out).
           v_version (out_versions out ! v) = int v + 1
           \<and> spec_version random_seed spec v = Inr (v_choice_sets (out_versions out ! v))"
  proof (intro allI impI)
    fix v assume "v < length (out_versions out)"
    with out len have v: "v < ?n" by simp
    with len l2 have "v_version (all_versions ! v) = int ([0..<?n] ! v) + 1
       \<and> spec_version random_seed spec ([0..<?n] ! v) = Inr (v_choice_sets (all_versions ! v))"
      by (auto dest: list_all2_nthD)
    with v out show "v_version (out_versions out ! v) = int v + 1
           \<and> spec_version random_seed spec v = Inr (v_choice_sets (out_versions out ! v))"
      by simp
  qed
  from out show "out_total_profiles out = length ?profiles" by simp
qed

lemma generate_design_ok:
  assumes "\<not> int (length (all_profiles (spec_attributes spec)))
             < spec_get (spec_profiles_per_task spec) 3"
    and "\<forall>v < nat (spec_get (spec_n_versions spec) 4).
           \<exists>choice_sets. spec_version random_seed spec v = Inr choice_sets"
  shows "\<exists>out g'. generate_design random_seed spec g = Inr (out, g')"
proof -
  let ?profiles = "all_profiles (spec_attributes spec)"
  let ?n = "nat (spec_get (spec_n_versions spec) 4)"
  from assms(2) have "\<forall>v \<in> set [0..<?n]. \<exists>choice_sets.
      version_from_stream ?profiles (spec_attributes spec)
        (spec_get (spec_tasks_per_version spec) 8) (spec_get (spec_profiles_per_task spec) 3)
        (effective_min_diff spec) (random_seed (spec_get (spec_seed spec) 42 + int v)) =
      Inr choice_sets"
    by (simp add: spec_version_def)
  from versions_loop_ok [OF this, of "[]" "random_seed (spec_get (spec_seed spec) 42)"]
  obtain all_versions g' where
    "versions_loop random_seed ?profiles (spec_attributes spec)
       (spec_get (spec_tasks_per_version spec) 8) (spec_get (spec_profiles_per_task spec) 3)
       (effective_min_diff spec) (spec_get (spec_seed spec) 42) [0..<?n] []
       (random_seed (spec_get (spec_seed spec) 42)) = Inr (all_versions, g')"
    by blast
  with assms(1) show ?thesis
    by (simp add: generate_design_def effective_min_diff_def Let_def)
qed

lemma all_profiles_keys:
  assumes "distinct (map fst attributes)" and "p \<in> set (all_profiles attributes)"
  shows "map fst p = map fst attributes"
proof -
  from assms have "list_all2 (\<lambda>(k, l) (n, levels). k = n \<and> l \<in> set levels) p attributes"
    by (simp add: all_profiles_shape)
  then show ?thesis by (induction rule: list_all2_induct) auto
qed

lemma all_profiles_nonempty:
  assumes "distinct (map fst attributes)"
    and "\<forall>(n, levels) \<in> set attributes. levels \<noteq> []"
  shows "all_profiles attributes \<noteq> []"
proof -
  have "0 < prod_list (map length (map snd attributes))"
    using assms(2) by (induction attributes) auto
  then have "0 < length (all_profiles attributes)"
    by (simp add: all_profiles_eq [OF assms(1)] length_product_lists_prod)
  then show ?thesis by auto
qed

text \<open>With at least one level for every attribute, every version is computed.\<close>

lemma spec_version_ok:
  assumes "distinct (map fst (spec_attributes spec))"
    and "\<forall>(n, levels) \<in> set (spec_attributes spec). levels \<noteq> []"
  shows "\<exists>choice_sets. spec_version random_seed spec v = Inr choice_sets"
  unfolding spec_version_def
proof (rule version_from_stream_ok)
  show "\<forall>p \<in> set (all_profiles (spec_attributes spec)). map fst p = map fst (spec_attributes spec)"
    using all_profiles_keys [OF assms(1)] by blast
  show "all_profiles (spec_attributes spec) \<noteq> []"
    using assms by (rule all_profiles_nonempty)
qed

text \<open>What holds of every task built holds of every task of every version of the design.\<close>

lemma spec_version_inv:
  assumes "\<And>first g task g'. first \<in> set (all_profiles (spec_attributes spec)) \<Longrightarrow>
             build_task (all_profiles (spec_attributes spec))
               (spec_get (spec_profiles_per_task spec) 3) (effective_min_diff spec) first g =
               Inr (task, g') \<Longrightarrow> P task"
    and "\<And>task task'. mset task' = mset task \<Longrightarrow> P task \<Longrightarrow> P task'"
    and "spec_version random_seed spec v = Inr choice_sets"
  shows "(\<forall>task \<in> set choice_sets. P task)
       \<and> length choice_sets = nat (spec_get (spec_tasks_per_version spec) 8)"
proof (rule version_from_stream_inv [where P = P])
  show "version_from_stream (all_profiles (spec_attributes spec)) (spec_attributes spec)
          (spec_get (spec_tasks_per_version spec) 8) (spec_get (spec_profiles_per_task spec) 3)
          (effective_min_diff spec) (random_seed (spec_get (spec_seed spec) 42 + int v)) =
        Inr choice_sets"
    using assms(3) unfolding spec_version_def .
  show "P task"
    if "first \<in> set (all_profiles (spec_attributes spec))"
      "build_task (all_profiles (spec_attributes spec))
         (spec_get (spec_profiles_per_task spec) 3) (effective_min_diff spec) first g =
         Inr (task, g')"
    for first g task g'
    using that by (rule assms(1))
  show "P task'" if "mset task' = mset task" "P task" for task task'
    using that by (rule assms(2))
qed

section \<open>Claims about design generation\<close>

lemma spec_two_profiles_runs:
  "\<exists>out g'. generate_design random_seed spec_two_profiles g = Inr (out, g')"
proof (rule generate_design_ok)
  show "\<not> int (length (all_profiles (spec_attributes spec_two_profiles)))
          < spec_get (spec_profiles_per_task spec_two_profiles) 3"
    by (simp add: spec_two_profiles_def spec_get_def all_profiles_def itertools_product_def)
  show "\<forall>v < nat (spec_get (spec_n_versions spec_two_profiles) 4).
          \<exists>choice_sets. spec_version random_seed spec_two_profiles v = Inr choice_sets"
    by (intro allI impI spec_version_ok) (simp_all add: spec_two_profiles_def)
qed

text \<open>
  C7. Design generation is deterministic in the seed. The design computed does not depend on
  the state in which the generator is found, the only input outside the specification, so
  that two runs on one specification give the same design; and when a design is returned, it
  has \<open>n_versions\<close> versions, and the choice sets of the version with index \<open>v\<close> (numbered
  \<open>v + 1\<close>) are those computed from the specification and the stream seeded with
  \<open>seed + v\<close> alone.
\<close>

theorem generate_design_deterministic:
  "generate_design random_seed spec g = generate_design random_seed spec g0
   \<and> (generate_design random_seed spec g = Inr (out, g') \<longrightarrow>
        length (out_versions out) = nat (spec_get (spec_n_versions spec) 4)
        \<and> (\<forall>v < length (out_versions out).
              v_version (out_versions out ! v) = int v + 1
              \<and> spec_version random_seed spec v = Inr (v_choice_sets (out_versions out ! v))))"
  using generate_design_state [of random_seed spec g g0]
    generate_design_versions(2,3) [of random_seed spec g out g']
  by blast

theorem generate_design_deterministic_witness:
  "generate_design zero_seed spec_two_profiles (sconst 0) =
     generate_design zero_seed spec_two_profiles (sconst 1)
   \<and> (\<exists>out g'. generate_design zero_seed spec_two_profiles (sconst 0) = Inr (out, g')
         \<and> length (out_versions out) = 4
         \<and> (\<forall>v < length (out_versions out).
               v_version (out_versions out ! v) = int v + 1
               \<and> spec_version zero_seed spec_two_profiles v =
                   Inr (v_choice_sets (out_versions out ! v))))"
proof -
  from spec_two_profiles_runs [of zero_seed "sconst 0"] obtain out g' where
    r: "generate_design zero_seed spec_two_profiles (sconst 0) = Inr (out, g')"
    by blast
  note t = generate_design_deterministic
             [of zero_seed spec_two_profiles "sconst 0" "sconst 1" out g']
  from t have a: "generate_design zero_seed spec_two_profiles (sconst 0) =
                  generate_design zero_seed spec_two_profiles (sconst 1)"
    by blast
  from t r have "length (out_versions out) = nat (spec_get (spec_n_versions spec_two_profiles) 4)"
    by blast
  then have b: "length (out_versions out) = 4"
    by (simp add: spec_two_profiles_def spec_get_def)
  from t r have c: "\<forall>v < length (out_versions out).
               v_version (out_versions out ! v) = int v + 1
               \<and> spec_version zero_seed spec_two_profiles v =
                   Inr (v_choice_sets (out_versions out ! v))"
    by blast
  from a r b c show ?thesis by blast
qed






text \<open>
  Where every attribute has at least one level, design generation ends in an error exactly
  when \<open>profiles_per_task\<close> exceeds the number of enumerated profiles, and the error is the
  exit with status 1; and whatever the attributes, it ends in that exit when
  \<open>profiles_per_task\<close> exceeds the number of enumerated profiles.
\<close>

theorem generate_design_error_iff:
  assumes "distinct (map fst (spec_attributes spec))"
    and "\<forall>(n, levels) \<in> set (spec_attributes spec). levels \<noteq> []"
  shows "((\<exists>e. generate_design random_seed spec g = Inl e) \<longleftrightarrow>
            int (length (all_profiles (spec_attributes spec)))
              < spec_get (spec_profiles_per_task spec) 3)
       \<and> (generate_design random_seed spec g = Inl e \<longrightarrow> e = SystemExit 1)"
proof (cases "int (length (all_profiles (spec_attributes spec)))
                < spec_get (spec_profiles_per_task spec) 3")
  case True
  from generate_design_exit [OF this, of random_seed g] True show ?thesis by simp
next
  case False
  have "\<forall>v < nat (spec_get (spec_n_versions spec) 4).
          \<exists>choice_sets. spec_version random_seed spec v = Inr choice_sets"
    using spec_version_ok [OF assms] by blast
  from generate_design_ok [OF False this, of g] False show ?thesis by auto
qed

theorem generate_design_error_iff_witness:
  "(\<exists>out g'. generate_design zero_seed spec_two_profiles (sconst 0) = Inr (out, g'))
   \<and> \<not> int (length (all_profiles (spec_attributes spec_two_profiles)))
          < spec_get (spec_profiles_per_task spec_two_profiles) 3"
proof -
  have d: "distinct (map fst (spec_attributes spec_two_profiles))"
    by (simp add: spec_two_profiles_def)
  have n: "\<forall>(n, levels) \<in> set (spec_attributes spec_two_profiles). levels \<noteq> []"
    by (simp add: spec_two_profiles_def)
  have b: "\<not> int (length (all_profiles (spec_attributes spec_two_profiles)))
             < spec_get (spec_profiles_per_task spec_two_profiles) 3"
    by (simp add: spec_two_profiles_def spec_get_def all_profiles_def itertools_product_def)
  from generate_design_error_iff [OF d n, of zero_seed "sconst 0"] b
  have "\<not> (\<exists>e. generate_design zero_seed spec_two_profiles (sconst 0) = Inl e)"
    by blast
  then have "\<exists>out g'. generate_design zero_seed spec_two_profiles (sconst 0) = Inr (out, g')"
    by (cases "generate_design zero_seed spec_two_profiles (sconst 0)") auto
  with b show ?thesis by blast
qed

lemma build_task_nonempty:
  assumes "build_task profiles profiles_per_task min_diff first g = Inr (task, g')"
  shows "task \<noteq> []"
proof -
  obtain candidates g1 where s1: "shuffle [p \<leftarrow> profiles. \<not> dict_eq p first] g = (candidates, g1)"
    by (cases "shuffle [p \<leftarrow> profiles. \<not> dict_eq p first] g")
  from assms obtain task1 where
    a: "add_candidates candidates [first] profiles_per_task min_diff = Inr task1"
    by (auto simp: build_task_def s1 split: sum.splits)
  from add_candidates_mset [OF a] have "mset [first] \<subseteq># mset task1" by blast
  then have t1: "first \<in> set task1" by (auto dest: mset_subset_eqD)
  show ?thesis
  proof (cases "int (length task1) < profiles_per_task")
    case False
    with assms a have "task = task1" by (simp add: build_task_def s1)
    with t1 show ?thesis by auto
  next
    case True
    obtain remaining g2 where
      s2: "shuffle [p \<leftarrow> profiles. \<not> list_ex (dict_eq p) task1] g1 = (remaining, g2)"
      by (cases "shuffle [p \<leftarrow> profiles. \<not> list_ex (dict_eq p) task1] g1")
    from assms a True have task: "task = fill_remaining remaining task1 profiles_per_task"
      by (simp add: build_task_def s1 s2)
    from fill_remaining_mset [of task1 remaining profiles_per_task]
    have "mset task1 \<subseteq># mset task" unfolding task by blast
    with t1 have "first \<in> set task" by (auto dest: mset_subset_eqD)
    then show ?thesis by auto
  qed
qed

lemma length_concat_nonempty:
  "\<forall>xs \<in> set xss. xs \<noteq> [] \<Longrightarrow> length xss \<le> length (concat xss)"
proof (induction xss)
  case Nil
  then show ?case by simp
next
  case (Cons xs xss)
  from Cons.prems have "xs \<noteq> []" by simp
  then have 1: "1 \<le> length xs" by (cases xs) simp_all
  from Cons have 2: "length xss \<le> length (concat xss)" by simp
  from 1 2 show ?case by simp
qed

lemma mset_nonempty_perm: "mset task' = mset task \<Longrightarrow> task \<noteq> [] \<Longrightarrow> task' \<noteq> []"
  by auto

lemma mset_subset_perm:
  "mset task' = mset task \<Longrightarrow> mset task \<subseteq># mset profiles \<Longrightarrow> mset task' \<subseteq># mset profiles"
  by simp

text \<open>
  C8, as the code has it. The specification \<open>spec_two_profiles\<close> enumerates two profiles;
  the design generated from it, with the generator that always draws 0, has four versions,
  and every version holds at least eight profiles in its eight tasks.
\<close>

theorem design_version_exceeds_total:
  "\<not> isl (generate_design zero_seed spec_two_profiles (sconst 0))
   \<and> out_total_profiles (fst (projr (generate_design zero_seed spec_two_profiles (sconst 0)))) = 2
   \<and> length (out_versions
               (fst (projr (generate_design zero_seed spec_two_profiles (sconst 0))))) = 4
   \<and> list_all ((\<le>) 8 \<circ> length \<circ> concat \<circ> v_choice_sets)
        (out_versions (fst (projr (generate_design zero_seed spec_two_profiles (sconst 0)))))"
proof -
  from spec_two_profiles_runs [of zero_seed "sconst 0"] obtain out g' where
    r: "generate_design zero_seed spec_two_profiles (sconst 0) = Inr (out, g')"
    by blast
  note v = generate_design_versions [OF r]
  have total: "out_total_profiles out = 2"
    unfolding v(4)
    by (simp add: spec_two_profiles_def all_profiles_def itertools_product_def)
  have len: "length (out_versions out) = 4"
    unfolding v(2) by (simp add: spec_two_profiles_def spec_get_def)
  have "8 \<le> length (concat (v_choice_sets ver))" if "ver \<in> set (out_versions out)" for ver
  proof -
    from that obtain i where i: "i < length (out_versions out)" "out_versions out ! i = ver"
      by (auto simp: in_set_conv_nth)
    with v(3) have sv: "spec_version zero_seed spec_two_profiles i = Inr (v_choice_sets ver)"
      by auto
    have "(\<forall>task \<in> set (v_choice_sets ver). task \<noteq> [])
          \<and> length (v_choice_sets ver)
              = nat (spec_get (spec_tasks_per_version spec_two_profiles) 8)"
      by (rule spec_version_inv [where P = "\<lambda>task. task \<noteq> []", OF _ _ sv])
        (erule build_task_nonempty, erule (1) mset_nonempty_perm)
    then have ne: "\<forall>task \<in> set (v_choice_sets ver). task \<noteq> []"
      and l: "length (v_choice_sets ver) = 8"
      by (simp_all add: spec_two_profiles_def spec_get_def)
    from length_concat_nonempty [OF ne] l show ?thesis by simp
  qed
  then have "list_all ((\<le>) 8 \<circ> length \<circ> concat \<circ> v_choice_sets) (out_versions out)"
    by (simp add: list_all_iff)
  with total len show ?thesis by (simp add: r)
qed

text \<open>
  C8, amended. For every generated design version, every choice task contains at most as many
  profiles as were enumerated and every profile of a task is one of the enumerated profiles,
  so that the number of different profiles the version contains never exceeds the total
  number of enumerated profiles; the number of profiles counted across all of its tasks can
  exceed it.
\<close>

theorem design_version_within_enumerated:
  assumes "generate_design random_seed spec g = Inr (out, g')"
  shows "out_total_profiles out = length (all_profiles (spec_attributes spec))
       \<and> (\<forall>ver \<in> set (out_versions out).
             (\<forall>task \<in> set (v_choice_sets ver).
                length task \<le> out_total_profiles out
                \<and> set task \<subseteq> set (all_profiles (spec_attributes spec)))
             \<and> card (set (concat (v_choice_sets ver))) \<le> out_total_profiles out)"
proof -
  let ?profiles = "all_profiles (spec_attributes spec)"
  note v = generate_design_versions [OF assms]
  have "(\<forall>task \<in> set (v_choice_sets ver).
           length task \<le> out_total_profiles out \<and> set task \<subseteq> set ?profiles)
        \<and> card (set (concat (v_choice_sets ver))) \<le> out_total_profiles out"
    if "ver \<in> set (out_versions out)" for ver
  proof -
    from that obtain i where i: "i < length (out_versions out)" "out_versions out ! i = ver"
      by (auto simp: in_set_conv_nth)
    with v(3) have sv: "spec_version random_seed spec i = Inr (v_choice_sets ver)"
      by auto
    have "(\<forall>task \<in> set (v_choice_sets ver). mset task \<subseteq># mset ?profiles)
          \<and> length (v_choice_sets ver) = nat (spec_get (spec_tasks_per_version spec) 8)"
      by (rule spec_version_inv [where P = "\<lambda>task. mset task \<subseteq># mset ?profiles", OF _ _ sv])
        (erule (1) build_task_mset, erule (1) mset_subset_perm)
    then have sub: "\<forall>task \<in> set (v_choice_sets ver). mset task \<subseteq># mset ?profiles"
      by blast
    have a: "length task \<le> out_total_profiles out \<and> set task \<subseteq> set ?profiles"
      if "task \<in> set (v_choice_sets ver)" for task
    proof -
      from sub that have m: "mset task \<subseteq># mset ?profiles" by blast
      from size_mset_mono [OF m] have "length task \<le> length ?profiles" by simp
      moreover from set_mset_mono [OF m] have "set task \<subseteq> set ?profiles" by simp
      ultimately show ?thesis unfolding v(4) by blast
    qed
    then have "set (concat (v_choice_sets ver)) \<subseteq> set ?profiles" by auto
    then have "card (set (concat (v_choice_sets ver))) \<le> card (set ?profiles)"
      by (intro card_mono) simp_all
    also have "\<dots> \<le> length ?profiles" by (rule card_length)
    finally have "card (set (concat (v_choice_sets ver))) \<le> out_total_profiles out"
      unfolding v(4) .
    with a show ?thesis by blast
  qed
  with v(4) show ?thesis by blast
qed

theorem design_version_within_enumerated_witness:
  "\<exists>out g'. generate_design zero_seed spec_two_profiles (sconst 0) = Inr (out, g')
     \<and> out_total_profiles out = length (all_profiles (spec_attributes spec_two_profiles))
     \<and> (\<forall>ver \<in> set (out_versions out).
           (\<forall>task \<in> set (v_choice_sets ver).
              length task \<le> out_total_profiles out
              \<and> set task \<subseteq> set (all_profiles (spec_attributes spec_two_profiles)))
           \<and> card (set (concat (v_choice_sets ver))) \<le> out_total_profiles out)"
proof -
  from spec_two_profiles_runs [of zero_seed "sconst 0"] obtain out g' where
    r: "generate_design zero_seed spec_two_profiles (sconst 0) = Inr (out, g')"
    by blast
  from design_version_within_enumerated [OF r] r show ?thesis by blast
qed

lemma pairwise_distinct_iff: "pairwise_distinct task \<longleftrightarrow> distinct (map set task)"
  by (auto simp: pairwise_distinct_def dict_eq_def distinct_conv_nth)

lemma mset_subset_distinct:
  assumes "mset xs \<subseteq># mset ys" and "distinct ys"
  shows "distinct xs"
proof -
  have "count (mset xs) a = (if a \<in> set xs then 1 else 0)" for a
  proof (cases "a \<in> set xs")
    case True
    then have p: "0 < count (mset xs) a" by simp
    have q: "count (mset xs) a \<le> count (mset ys) a"
      using assms(1) by (rule mset_subset_eq_count)
    have r: "count (mset ys) a \<le> 1"
      using assms(2) by (simp add: distinct_count_atmost_1)
    from p q r have "count (mset xs) a = 1" by linarith
    with True show ?thesis by simp
  next
    case False
    then show ?thesis by (simp add: count_eq_zero_iff)
  qed
  then show ?thesis by (simp add: distinct_count_atmost_1)
qed

lemma pairwise_distinct_sub:
  assumes "pairwise_distinct profiles" and "mset task \<subseteq># mset profiles"
  shows "pairwise_distinct task"
proof -
  from assms(2) have "image_mset set (mset task) \<subseteq># image_mset set (mset profiles)"
    by (rule image_mset_subseteq_mono)
  then have "mset (map set task) \<subseteq># mset (map set profiles)" by simp
  with assms(1) show ?thesis
    unfolding pairwise_distinct_iff by (rule mset_subset_distinct [rotated])
qed

lemma pairwise_distinct_perm:
  "mset task' = mset task \<Longrightarrow> pairwise_distinct task \<longleftrightarrow> pairwise_distinct task'"
  unfolding pairwise_distinct_iff
  by (metis mset_eq_imp_distinct_iff mset_map)

text \<open>
  Where no profile of the pool is repeated, no task repeats a profile: in the choice sets that
  the search returns, and so in every version of a design whose attributes repeat no level.
\<close>

theorem generate_one_version_distinct:
  assumes "pairwise_distinct profiles"
    and "generate_one_version profiles attributes n_tasks profiles_per_task min_diff iterations g =
           Inr (Some (choice_sets, score), g')"
  shows "\<forall>task \<in> set choice_sets. pairwise_distinct task"
proof -
  have step: "pairwise_distinct task"
    if "first \<in> set profiles"
      "build_task profiles profiles_per_task min_diff first g = Inr (task, g')"
    for first g task g'
    using assms(1) build_task_mset [OF that(2,1)] by (rule pairwise_distinct_sub)
  from search_loop_inv [of profiles profiles_per_task min_diff pairwise_distinct, OF step
      assms(2) [unfolded generate_one_version_def]]
  show ?thesis by simp
qed

lemma all_profiles_pairwise_distinct:
  assumes "distinct (map fst attributes)"
    and "\<forall>(n, levels) \<in> set attributes. distinct levels"
  shows "pairwise_distinct (all_profiles attributes)"
proof -
  let ?names = "map fst attributes"
  let ?combos = "product_lists (map snd attributes)"
  have dc: "distinct ?combos"
    using assms(2) by (intro distinct_product_lists) auto
  have inj: "inj_on (\<lambda>combo. set (zip ?names combo)) (set ?combos)"
  proof (rule inj_onI)
    fix c1 c2
    assume c1: "c1 \<in> set ?combos" and c2: "c2 \<in> set ?combos"
      and eq: "set (zip ?names c1) = set (zip ?names c2)"
    from c1 have l1: "length c1 = length ?names" by (simp add: in_set_product_lists_length)
    from c2 have l2: "length c2 = length ?names" by (simp add: in_set_product_lists_length)
    have "distinct (map fst (zip ?names c1))" "distinct (map fst (zip ?names c2))"
      using assms(1) l1 l2 by simp_all
    from map_of_inject_set [OF this] eq
    have "map_of (zip ?names c1) = map_of (zip ?names c2)" by blast
    from map_of_zip_inject [OF l1 l2 assms(1) this] show "c1 = c2" .
  qed
  have "distinct (map (\<lambda>combo. set (zip ?names combo)) ?combos)"
    using dc inj by (simp add: distinct_map)
  then show ?thesis
    unfolding pairwise_distinct_iff all_profiles_eq [OF assms(1)] by (simp add: comp_def)
qed

theorem generate_design_distinct_tasks:
  assumes "distinct (map fst (spec_attributes spec))"
    and "\<forall>(n, levels) \<in> set (spec_attributes spec). distinct levels"
    and "generate_design random_seed spec g = Inr (out, g')"
  shows "\<forall>ver \<in> set (out_versions out). \<forall>task \<in> set (v_choice_sets ver).
           pairwise_distinct task"
proof (intro ballI)
  fix ver task
  assume ver: "ver \<in> set (out_versions out)" and task: "task \<in> set (v_choice_sets ver)"
  let ?profiles = "all_profiles (spec_attributes spec)"
  note v = generate_design_versions [OF assms(3)]
  from ver obtain i where i: "i < length (out_versions out)" "out_versions out ! i = ver"
    by (auto simp: in_set_conv_nth)
  with v(3) have sv: "spec_version random_seed spec i = Inr (v_choice_sets ver)"
    by auto
  have "(\<forall>task \<in> set (v_choice_sets ver). mset task \<subseteq># mset ?profiles)
        \<and> length (v_choice_sets ver) = nat (spec_get (spec_tasks_per_version spec) 8)"
    by (rule spec_version_inv [where P = "\<lambda>task. mset task \<subseteq># mset ?profiles", OF _ _ sv])
      (erule (1) build_task_mset, erule (1) mset_subset_perm)
  with task have "mset task \<subseteq># mset ?profiles" by blast
  with all_profiles_pairwise_distinct [OF assms(1,2)] show "pairwise_distinct task"
    by (rule pairwise_distinct_sub)
qed

lemma shuffle_two_equal:
  assumes "shuffle [q, q] g = (xs, g')"
  shows "xs = [q, q]"
proof -
  from shuffle_length [OF assms] have "length xs = 2" by simp
  then obtain a b where xs: "xs = [a, b]"
    by (metis (no_types) Suc_length_conv length_0_conv numeral_2_eq_2)
  from shuffle_set [OF assms] have "set xs = {q}" by simp
  with xs show ?thesis by auto
qed

text \<open>
  A pool in which the profiles other than \<open>p\<close> are two copies of \<open>q\<close>, one attribute away
  from \<open>p\<close>: with three profiles for a task and a minimum difference of two, the task that
  starts with \<open>p\<close> is \<open>p\<close> and both copies of \<open>q\<close>.
\<close>

lemma build_task_two_copies:
  assumes f: "[x \<leftarrow> profiles. \<not> dict_eq x p] = [q, q]"
    and d: "profile_diff_count q p = Inr 1"
    and r: "build_task profiles 3 2 p g = Inr (task, g')"
  shows "task = [p, q, q]"
proof -
  obtain candidates g1 where s1: "shuffle [q, q] g = (candidates, g1)"
    by (cases "shuffle [q, q] g")
  from shuffle_two_equal [OF s1] have c: "candidates = [q, q]" .
  have a: "add_candidates [q, q] [p] 3 2 = Inr [p]"
    by (simp add: d)
  have "list_ex (dict_eq x) [p] = dict_eq x p" for x :: profile
    by simp
  then have f2: "[x \<leftarrow> profiles. \<not> list_ex (dict_eq x) [p]] = [q, q]"
    using f by simp
  obtain remaining g2 where s2: "shuffle [q, q] g1 = (remaining, g2)"
    by (cases "shuffle [q, q] g1")
  from shuffle_two_equal [OF s2] have rm: "remaining = [q, q]" .
  from r show ?thesis
    unfolding build_task_def f s1 c prod.case a sum.case
    by (simp add: f s2 rm)
qed

lemma repeated_level_profiles:
  "all_profiles (spec_attributes spec_repeated_level) =
     [[(''x'', ''a''), (''y'', ''c'')], [(''x'', ''a''), (''y'', ''d'')],
      [(''x'', ''a''), (''y'', ''c'')], [(''x'', ''a''), (''y'', ''d'')]]"
  unfolding spec_repeated_level_def by code_simp

lemma repeated_level_task:
  assumes "first \<in> set (all_profiles (spec_attributes spec_repeated_level))"
    and "build_task (all_profiles (spec_attributes spec_repeated_level))
           (spec_get (spec_profiles_per_task spec_repeated_level) 3)
           (effective_min_diff spec_repeated_level) first g = Inr (task, g')"
  shows "length task = 3 \<and> \<not> pairwise_distinct task"
proof -
  let ?pc = "[(''x'', ''a''), (''y'', ''c'')]"
  let ?pd = "[(''x'', ''a''), (''y'', ''d'')]"
  have ne: "\<not> dict_eq ?pc ?pd" "\<not> dict_eq ?pd ?pc"
    by code_simp+
  have eq: "dict_eq ?pc ?pc" "dict_eq ?pd ?pd"
    by (simp_all add: dict_eq_def)
  have fc: "[x \<leftarrow> [?pc, ?pd, ?pc, ?pd]. \<not> dict_eq x ?pc] = [?pd, ?pd]"
    using ne eq by simp
  have fd: "[x \<leftarrow> [?pc, ?pd, ?pc, ?pd]. \<not> dict_eq x ?pd] = [?pc, ?pc]"
    using ne eq by simp
  have dc: "profile_diff_count ?pd ?pc = Inr 1" by simp
  have dd: "profile_diff_count ?pc ?pd = Inr 1" by simp
  have params: "spec_get (spec_profiles_per_task spec_repeated_level) 3 = 3"
    "effective_min_diff spec_repeated_level = 2"
    by (simp_all add: spec_repeated_level_def spec_get_def effective_min_diff_def)
  from assms(1) have "first = ?pc \<or> first = ?pd"
    unfolding repeated_level_profiles by auto
  then have "task = [?pc, ?pd, ?pd] \<or> task = [?pd, ?pc, ?pc]"
  proof
    assume "first = ?pc"
    with assms(2) build_task_two_copies [OF fc dc] show ?thesis
      unfolding repeated_level_profiles params by blast
  next
    assume "first = ?pd"
    with assms(2) build_task_two_copies [OF fd dd] show ?thesis
      unfolding repeated_level_profiles params by blast
  qed
  then show ?thesis
    by (auto simp: pairwise_distinct_iff)
qed

text \<open>
  C6. The claim has the profiles of every task pairwise distinct. For the specification
  \<open>spec_repeated_level\<close>, in which the attribute \<open>x\<close> lists the level \<open>a\<close> twice, four
  profiles are enumerated, two of them twice. Whatever the generator draws, design generation
  returns four versions of eight tasks, and every task holds one profile twice: no candidate
  differs from the first profile in two attributes, and the fill
  \<open>remaining = [p for p in profiles if p not in task]\<close> takes both copies of the other
  profile.
\<close>

theorem generate_design_repeats_profile:
  "\<exists>out g'. generate_design random_seed spec_repeated_level g = Inr (out, g')
     \<and> length (out_versions out) = 4
     \<and> (\<forall>ver \<in> set (out_versions out).
           length (v_choice_sets ver) = 8
           \<and> (\<forall>task \<in> set (v_choice_sets ver). length task = 3 \<and> \<not> pairwise_distinct task))"
proof -
  have "\<exists>out g'. generate_design random_seed spec_repeated_level g = Inr (out, g')"
  proof (rule generate_design_ok)
    show "\<not> int (length (all_profiles (spec_attributes spec_repeated_level)))
            < spec_get (spec_profiles_per_task spec_repeated_level) 3"
      unfolding repeated_level_profiles by (simp add: spec_repeated_level_def spec_get_def)
    show "\<forall>v < nat (spec_get (spec_n_versions spec_repeated_level) 4).
            \<exists>choice_sets. spec_version random_seed spec_repeated_level v = Inr choice_sets"
      by (intro allI impI spec_version_ok) (simp_all add: spec_repeated_level_def)
  qed
  then obtain out g' where
    r: "generate_design random_seed spec_repeated_level g = Inr (out, g')"
    by blast
  note v = generate_design_versions [OF r]
  have len: "length (out_versions out) = 4"
    unfolding v(2) by (simp add: spec_repeated_level_def spec_get_def)
  have "length (v_choice_sets ver) = 8
        \<and> (\<forall>task \<in> set (v_choice_sets ver). length task = 3 \<and> \<not> pairwise_distinct task)"
    if "ver \<in> set (out_versions out)" for ver
  proof -
    from that obtain i where i: "i < length (out_versions out)" "out_versions out ! i = ver"
      by (auto simp: in_set_conv_nth)
    with v(3) have sv: "spec_version random_seed spec_repeated_level i = Inr (v_choice_sets ver)"
      by auto
    have perm: "length task' = 3 \<and> \<not> pairwise_distinct task'"
      if "mset task' = mset task" "length task = 3 \<and> \<not> pairwise_distinct task"
      for task task' :: "profile list"
      using that pairwise_distinct_perm [OF that(1)] mset_eq_length [OF that(1)] by simp
    have step: "length task = 3 \<and> \<not> pairwise_distinct task"
      if "first \<in> set (all_profiles (spec_attributes spec_repeated_level))"
        "build_task (all_profiles (spec_attributes spec_repeated_level))
           (spec_get (spec_profiles_per_task spec_repeated_level) 3)
           (effective_min_diff spec_repeated_level) first g = Inr (task, g')"
      for first g task g'
      using that by (rule repeated_level_task)
    from spec_version_inv [where P = "\<lambda>task. length task = 3 \<and> \<not> pairwise_distinct task",
        OF step perm sv]
    show ?thesis by (simp add: spec_repeated_level_def spec_get_def)
  qed
  with r len show ?thesis by blast
qed

theorem generate_design_repeats_profile_witness:
  "\<exists>out g'. generate_design zero_seed spec_repeated_level (sconst 0) = Inr (out, g')
     \<and> length (out_versions out) = 4
     \<and> (\<forall>ver \<in> set (out_versions out).
           length (v_choice_sets ver) = 8
           \<and> (\<forall>task \<in> set (v_choice_sets ver). length task = 3 \<and> \<not> pairwise_distinct task))"
  by (rule generate_design_repeats_profile)

end
